theory Spec2Isabelle
  imports Complex_Main "HOL-Library.Word" "HOL-Library.Multiset"
begin

unbundle bit_operations_syntax

section \<open>Storage (p2p/kademlia/storage.js)\<close>

text \<open>
  \<open>IStorage\<close> extends the JavaScript \<open>Map\<close>, whose iteration order is the insertion
  order of its keys. The map is an association list with distinct keys, oldest
  insertion first; an entry is \<open>(key, [stamp, value])\<close>. \<open>Date.now()\<close> is a number
  of milliseconds and is passed to every operation that reads the clock.
\<close>

type_synonym ('k, 'v) jsmap = "('k \<times> 'v) list"

definition Map_has :: "('k, 'v) jsmap \<Rightarrow> 'k \<Rightarrow> bool" where
  "Map_has m k = (k \<in> set (map fst m))"

definition Map_delete :: "'k \<Rightarrow> ('k, 'v) jsmap \<Rightarrow> ('k, 'v) jsmap" where
  "Map_delete k m = filter (\<lambda>e. fst e \<noteq> k) m"

fun Map_set :: "'k \<Rightarrow> 'v \<Rightarrow> ('k, 'v) jsmap \<Rightarrow> ('k, 'v) jsmap" where
  "Map_set k v [] = [(k, v)]"
| "Map_set k v (e # m) = (if fst e = k then (k, v) # m else e # Map_set k v m)"

definition Map_get :: "('k, 'v) jsmap \<Rightarrow> 'k \<Rightarrow> 'v option" where
  "Map_get m k = map_of m k"

record ('k, 'v) ForgetfulStorage =
  entries :: "('k, int \<times> 'v) jsmap"
  ttl :: int

datatype dir = FIFO | LIFO

text \<open>\<open>pop(dir)\<close>: removes the first key (or the last one) and returns its value.\<close>

definition pop :: "dir \<Rightarrow> ('k, 'v) ForgetfulStorage \<Rightarrow> 'v option \<times> ('k, 'v) ForgetfulStorage" where
  "pop d s =
     (if entries s \<noteq> [] then
        let idx = (case d of FIFO \<Rightarrow> 0 | LIFO \<Rightarrow> length (entries s) - 1);
            key = map fst (entries s) ! idx;
            ret = map_option snd (Map_get (entries s) key)
        in (ret, s\<lparr>entries := Map_delete key (entries s)\<rparr>)
      else (None, s))"

definition tripleIterable :: "('k, 'v) ForgetfulStorage \<Rightarrow> ('k \<times> int \<times> 'v) list" where
  "tripleIterable s = map (\<lambda>(k, (t, v)). (k, t, v)) (entries s)"

definition iteritemsOlderThan :: "int \<Rightarrow> int \<Rightarrow> ('k, 'v) ForgetfulStorage \<Rightarrow> ('k \<times> 'v) list" where
  "iteritemsOlderThan now secondsOld s =
     (let minBirthday = now - secondsOld;
          matches = filter (\<lambda>(k, t, v). minBirthday \<ge> t) (tripleIterable s)
      in map (\<lambda>(k, t, v). (k, v)) matches)"

text \<open>\<open>cull\<close>: one FIFO \<open>pop\<close> for every item the filter returned.\<close>

fun pops :: "nat \<Rightarrow> ('k, 'v) ForgetfulStorage \<Rightarrow> ('k, 'v) ForgetfulStorage" where
  "pops 0 s = s"
| "pops (Suc n) s = pops n (snd (pop FIFO s))"

definition cull :: "int \<Rightarrow> ('k, 'v) ForgetfulStorage \<Rightarrow> ('k, 'v) ForgetfulStorage" where
  "cull now s = pops (length (iteritemsOlderThan now (ttl s) s)) s"

text \<open>
  \<open>set(key, value)\<close> reads the clock for the stamp (\<open>stamp\<close>) and again inside
  \<open>cull\<close> (\<open>now\<close>).
\<close>

definition IStorage_set :: "int \<Rightarrow> int \<Rightarrow> 'k \<Rightarrow> 'v \<Rightarrow> ('k, 'v) ForgetfulStorage \<Rightarrow> ('k, 'v) ForgetfulStorage" where
  "IStorage_set stamp now key val s =
     (let s1 = (if Map_has (entries s) key then s\<lparr>entries := Map_delete key (entries s)\<rparr> else s);
          s2 = s1\<lparr>entries := Map_set key (stamp, val) (entries s1)\<rparr>
      in cull now s2)"

text \<open>\<open>get(key, def = null)\<close>: \<open>None\<close> is the default \<open>null\<close>.\<close>

definition IStorage_get :: "int \<Rightarrow> 'k \<Rightarrow> ('k, 'v) ForgetfulStorage \<Rightarrow> 'v option \<times> ('k, 'v) ForgetfulStorage" where
  "IStorage_get now key s =
     (let s1 = cull now s
      in if Map_has (entries s1) key then (map_option snd (Map_get (entries s1) key), s1)
         else (None, s1))"

definition items :: "int \<Rightarrow> ('k, 'v) ForgetfulStorage \<Rightarrow> ('k \<times> 'v) list \<times> ('k, 'v) ForgetfulStorage" where
  "items now s = (let s1 = cull now s in (map (\<lambda>(k, (t, v)). (k, v)) (entries s1), s1))"

text \<open>The stamps of the entries, in iteration order.\<close>

definition stamps :: "('k, 'v) ForgetfulStorage \<Rightarrow> int list" where
  "stamps s = map (\<lambda>e. fst (snd e)) (entries s)"

definition expired :: "int \<Rightarrow> int \<Rightarrow> ('k \<times> int \<times> 'v) \<Rightarrow> bool" where
  "expired now life e = (now - life \<ge> fst (snd e))"

definition stamps_ordered :: "('k, 'v) ForgetfulStorage \<Rightarrow> bool" where
  "stamps_ordered s = (distinct (map fst (entries s)) \<and> sorted (stamps s))"

datatype ('k, 'v) storage_call =
    CallSet int int 'k 'v
  | CallGet int 'k
  | CallItems int
  | CallCull int

fun run_call :: "('k, 'v) storage_call \<Rightarrow> ('k, 'v) ForgetfulStorage \<Rightarrow> ('k, 'v) ForgetfulStorage" where
  "run_call (CallSet stamp now k v) s = IStorage_set stamp now k v s"
| "run_call (CallGet now k) s = snd (IStorage_get now k s)"
| "run_call (CallItems now) s = snd (items now s)"
| "run_call (CallCull now) s = cull now s"

fun run_calls :: "('k, 'v) storage_call list \<Rightarrow> ('k, 'v) ForgetfulStorage \<Rightarrow> ('k, 'v) ForgetfulStorage" where
  "run_calls [] s = s"
| "run_calls (c # cs) s = run_calls cs (run_call c s)"

text \<open>The clock readings of a sequence of calls never go backwards, starting at \<open>t\<close>.\<close>

fun clock_ok :: "int \<Rightarrow> ('k, 'v) storage_call list \<Rightarrow> bool" where
  "clock_ok t [] = True"
| "clock_ok t (CallSet stamp now k v # cs) = (t \<le> stamp \<and> stamp \<le> now \<and> clock_ok now cs)"
| "clock_ok t (CallGet now k # cs) = (t \<le> now \<and> clock_ok now cs)"
| "clock_ok t (CallItems now # cs) = (t \<le> now \<and> clock_ok now cs)"
| "clock_ok t (CallCull now # cs) = (t \<le> now \<and> clock_ok now cs)"

fun last_clock :: "int \<Rightarrow> ('k, 'v) storage_call list \<Rightarrow> int" where
  "last_clock t [] = t"
| "last_clock t (CallSet stamp now k v # cs) = last_clock now cs"
| "last_clock t (CallGet now k # cs) = last_clock now cs"
| "last_clock t (CallItems now # cs) = last_clock now cs"
| "last_clock t (CallCull now # cs) = last_clock now cs"

fun sets_key :: "'k \<Rightarrow> ('k, 'v) storage_call \<Rightarrow> bool" where
  "sets_key key (CallSet stamp now k v) = (k = key)"
| "sets_key key _ = False"

definition upto_now :: "int \<Rightarrow> ('k, 'v) ForgetfulStorage \<Rightarrow> bool" where
  "upto_now t s = (\<forall>e\<in>set (entries s). fst (snd e) \<le> t)"

text \<open>What a completed \<open>set(key, val)\<close> stamped \<open>t0\<close> leaves true at clock reading \<open>t\<close>.\<close>

definition holds_since :: "'k \<Rightarrow> 'v \<Rightarrow> int \<Rightarrow> int \<Rightarrow> int \<Rightarrow> ('k, 'v) ForgetfulStorage \<Rightarrow> bool" where
  "holds_since key val t0 life t s =
     (stamps_ordered s \<and> ttl s = life \<and> upto_now t s
      \<and> (\<forall>e\<in>set (entries s). fst e = key \<longrightarrow> snd e = (t0, val))
      \<and> (t - t0 < life \<longrightarrow> (key, (t0, val)) \<in> set (entries s)))"

definition store0 :: "(string, nat) ForgetfulStorage" where
  "store0 = \<lparr>entries = [(''k0'', (0, 7))], ttl = 20000\<rparr>"

section \<open>Node and NodeHeap (p2p/kademlia/node.js)\<close>

text \<open>
  A node id is the canonical 40-digit hexadecimal form of a 160-bit number, so two ids
  are the same string exactly when they are the same number: an id is a \<open>160 word\<close>.
  \<open>ip\<close> and \<open>port\<close> default to \<open>null\<close>, which is \<open>None\<close>.
\<close>

type_synonym ident = "160 word"

record Node =
  node_id :: ident
  ip :: "string option"
  port :: "nat option"

definition sameHomeAs :: "Node \<Rightarrow> Node \<Rightarrow> bool" where
  "sameHomeAs this node = (ip this = ip node \<and> port this = port node)"

text \<open>
  \<open>distanceTo\<close>: the bytes of the two ids are XORed and the result is read as a
  big-endian number (a \<open>BigNumber\<close> holding a natural number).
\<close>

definition distanceTo :: "Node \<Rightarrow> Node \<Rightarrow> nat" where
  "distanceTo this node = unat (node_id this XOR node_id node)"

text \<open>
  \<open>compare\<close> of utils.js orders \<open>[distance, node]\<close> pairs by their first component:
  \<open>-1\<close>, \<open>1\<close> or \<open>0\<close>.
\<close>

definition compare :: "nat \<times> Node \<Rightarrow> nat \<times> Node \<Rightarrow> int" where
  "compare a b = (if fst a < fst b then -1 else if fst a > fst b then 1 else 0)"

text \<open>
  The binary heap of the package \<open>heap\<close> (a dependency, not part of the repository):
  \<open>push\<close> appends the item and moves it up while it compares below its parent at
  index \<open>(pos - 1) >> 1\<close>. The library shifts the parents down and writes the item once
  at the end; exchanging the item with its parent at every step builds the same array.
\<close>

function siftdown :: "('a \<Rightarrow> 'a \<Rightarrow> int) \<Rightarrow> 'a list \<Rightarrow> nat \<Rightarrow> 'a list" where
  "siftdown cmp array pos =
     (if pos > 0 then
        let parentpos = (pos - 1) div 2 in
        if cmp (array ! pos) (array ! parentpos) < 0
        then siftdown cmp (array[pos := array ! parentpos, parentpos := array ! pos]) parentpos
        else array
      else array)"
  by pat_completeness auto
termination
  by (relation "measure (\<lambda>(cmp, array, pos). pos)") auto

declare siftdown.simps [simp del]

definition heappush :: "('a \<Rightarrow> 'a \<Rightarrow> int) \<Rightarrow> 'a list \<Rightarrow> 'a \<Rightarrow> 'a list" where
  "heappush cmp array item = siftdown cmp (array @ [item]) (length array)"

text \<open>
  \<open>nsmallest(array, n, compare)\<close> of the same package returns the \<open>n\<close> smallest items
  in ascending order, whatever the order of \<open>array\<close>. With \<open>compare\<close> the order is
  that of the distances; items of equal distance keep their order in the array.
\<close>

definition nsmallest :: "(nat \<times> Node) list \<Rightarrow> nat \<Rightarrow> (nat \<times> Node) list" where
  "nsmallest array n = take n (sort_key fst array)"

record NodeHeap =
  node :: Node
  heap :: "(nat \<times> Node) list"
  contacted :: "ident set"
  maxsize :: nat

definition new_NodeHeap :: "Node \<Rightarrow> nat \<Rightarrow> NodeHeap" where
  "new_NodeHeap n m = \<lparr>node = n, heap = [], contacted = {}, maxsize = m\<rparr>"

definition has :: "NodeHeap \<Rightarrow> Node \<Rightarrow> bool" where
  "has h n = list_ex (\<lambda>e. node_id n = node_id (snd e)) (heap h)"

text \<open>\<open>push(nodes)\<close>: a single node is first wrapped into a one-element array.\<close>

fun push :: "Node list \<Rightarrow> NodeHeap \<Rightarrow> NodeHeap" where
  "push [] h = h"
| "push (n # nodes) h =
     push nodes
       (if \<not> has h n
        then h\<lparr>heap := heappush compare (heap h) (distanceTo (node h) n, n)\<rparr>
        else h)"

text \<open>The iterator: the nodes of the \<open>maxsize\<close> nearest entries of a copy of the heap.\<close>

definition iterate :: "NodeHeap \<Rightarrow> Node list" where
  "iterate h = map snd (nsmallest (heap h) (maxsize h))"

definition getIDs :: "NodeHeap \<Rightarrow> ident list" where
  "getIDs h = map node_id (iterate h)"

definition markContacted :: "Node \<Rightarrow> NodeHeap \<Rightarrow> NodeHeap" where
  "markContacted n h = h\<lparr>contacted := insert (node_id n) (contacted h)\<rparr>"

definition getUncontacted :: "NodeHeap \<Rightarrow> Node list" where
  "getUncontacted h = filter (\<lambda>n. node_id n \<notin> contacted h) (iterate h)"

definition allBeenContacted :: "NodeHeap \<Rightarrow> bool" where
  "allBeenContacted h = (length (getUncontacted h) = 0)"

definition getNodeById :: "NodeHeap \<Rightarrow> ident \<Rightarrow> Node option" where
  "getNodeById h i = map_option snd (find (\<lambda>e. node_id (snd e) = i) (heap h))"

text \<open>\<open>remove(peerIDs)\<close>: rebuilds the heap from the entries that stay.\<close>

definition remove :: "ident list \<Rightarrow> NodeHeap \<Rightarrow> NodeHeap" where
  "remove peerIDs h =
     (if length (remdups peerIDs) = 0 then h
      else h\<lparr>heap := foldl (\<lambda>nheap e. if node_id (snd e) \<notin> set peerIDs
                                        then heappush compare nheap e else nheap) [] (heap h)\<rparr>)"

datatype heap_call = HPush "Node list" | HRemove "ident list" | HMark Node

fun run_heap_call :: "NodeHeap \<Rightarrow> heap_call \<Rightarrow> NodeHeap" where
  "run_heap_call h (HPush ns) = push ns h"
| "run_heap_call h (HRemove is) = remove is h"
| "run_heap_call h (HMark n) = markContacted n h"

text \<open>
  The nodes of a list that a sequence of pushes stores: a node is kept when no entry
  with its id is stored already.
\<close>

fun fresh :: "ident set \<Rightarrow> Node list \<Rightarrow> Node list" where
  "fresh seen [] = []"
| "fresh seen (n # ns) =
     (if node_id n \<in> seen then fresh seen ns else n # fresh (insert (node_id n) seen) ns)"

definition heap_ids :: "NodeHeap \<Rightarrow> ident set" where
  "heap_ids h = set (map (\<lambda>e. node_id (snd e)) (heap h))"

text \<open>The entry \<open>[distance, node]\<close> that \<open>push\<close> stores for a node.\<close>

definition tagged :: "Node \<Rightarrow> Node \<Rightarrow> nat \<times> Node" where
  "tagged t n = (distanceTo t n, n)"

text \<open>A sequence of \<open>push\<close> calls, one array of nodes each.\<close>

definition pushes :: "Node list list \<Rightarrow> NodeHeap \<Rightarrow> NodeHeap" where
  "pushes nss h = foldl (\<lambda>h ns. push ns h) h nss"

text \<open>A sequence of calls of \<open>push\<close>, \<open>remove\<close> and \<open>markContacted\<close>.\<close>

definition heap_calls :: "heap_call list \<Rightarrow> NodeHeap \<Rightarrow> NodeHeap" where
  "heap_calls cs h = foldl run_heap_call h cs"

definition ids_distinct :: "NodeHeap \<Rightarrow> bool" where
  "ids_distinct h = distinct (map (\<lambda>e. node_id (snd e)) (heap h))"

text \<open>Sample nodes: \<open>nodeA\<close> and \<open>nodeA'\<close> share an id and differ in host and port.\<close>

definition nodeA :: Node where "nodeA = \<lparr>node_id = 5, ip = Some ''10.0.0.1'', port = Some 13001\<rparr>"
definition nodeA' :: Node where "nodeA' = \<lparr>node_id = 5, ip = Some ''10.0.0.9'', port = Some 4000\<rparr>"
definition nodeB :: Node where "nodeB = \<lparr>node_id = 12, ip = Some ''10.0.0.2'', port = Some 13001\<rparr>"
definition nodeC :: Node where "nodeC = \<lparr>node_id = 6, ip = Some ''10.0.0.3'', port = Some 13001\<rparr>"
definition nodeT :: Node where "nodeT = \<lparr>node_id = 4, ip = None, port = None\<rparr>"

section \<open>KBucket, TableTraverser and RoutingTable (p2p/kademlia/routing.js)\<close>

text \<open>
  The bounds of a bucket are \<open>BigNumber\<close>s of the package \<open>bignumber.js\<close> (a
  dependency, not part of the repository): exact decimal numbers, here rationals.
  \<open>plus\<close>, \<open>minus\<close> and \<open>times\<close> are exact; \<open>div\<close> rounds its quotient to
  \<open>DECIMAL_PLACES = 20\<close> decimal places and \<open>integerValue\<close> rounds to an integer, both
  with the default rounding mode \<open>ROUND_HALF_UP\<close> (to the nearest, halves away from
  zero). \<open>BN(id, 16)\<close> reads the hexadecimal id as a number.
\<close>

definition round_half_up :: "rat \<Rightarrow> int" where
  "round_half_up x = (if x \<ge> 0 then \<lfloor>x + 1 / 2\<rfloor> else - \<lfloor>- x + 1 / 2\<rfloor>)"

definition BN_div :: "rat \<Rightarrow> rat \<Rightarrow> rat" where
  "BN_div x y = of_int (round_half_up (x / y * 10 ^ 20)) / 10 ^ 20"

definition integerValue :: "rat \<Rightarrow> int" where
  "integerValue x = round_half_up x"

definition BN16 :: "ident \<Rightarrow> rat" where
  "BN16 i = of_nat (unat i)"

datatype error = TypeError

text \<open>
  \<open>OrderedSet\<close> of utils.js is a \<open>Map\<close> keyed by the JSON text of its items; the JSON
  text of a node is \<open>[id, ip, port]\<close>, so two nodes have the same key when they are
  equal. \<open>push\<close> moves the item to the end, \<open>pop\<close> takes the last one.
\<close>

definition OrderedSet_push :: "'a \<Rightarrow> 'a list \<Rightarrow> 'a list" where
  "OrderedSet_push thing s = filter (\<lambda>x. x \<noteq> thing) s @ [thing]"

record KBucket =
  bucket_range :: "rat \<times> rat"
  nodes :: "(ident, Node) jsmap"
  replacementNodes :: "Node list"
  lastUpdated :: int
  ksize :: nat

definition new_KBucket :: "rat \<Rightarrow> rat \<Rightarrow> nat \<Rightarrow> int \<Rightarrow> KBucket" where
  "new_KBucket rangeLower rangeUpper ksz now =
     \<lparr>bucket_range = (rangeLower, rangeUpper), nodes = [], replacementNodes = [],
      lastUpdated = now, ksize = ksz\<rparr>"

definition touchLastUpdated :: "int \<Rightarrow> KBucket \<Rightarrow> KBucket" where
  "touchLastUpdated now b = b\<lparr>lastUpdated := now\<rparr>"

definition getNodes :: "KBucket \<Rightarrow> Node list" where
  "getNodes b = map snd (nodes b)"

definition midpoint_of :: "KBucket \<Rightarrow> rat" where
  "midpoint_of b = BN_div (fst (bucket_range b) + snd (bucket_range b)) 2"

definition split :: "int \<Rightarrow> KBucket \<Rightarrow> KBucket \<times> KBucket" where
  "split now b =
     (let (mn, mx) = bucket_range b;
          midpoint = BN_div (mn + mx) 2;
          ksz = ksize b;
          one = new_KBucket mn midpoint ksz now;
          two = new_KBucket (midpoint + 1) mx ksz now
      in foldl (\<lambda>(one, two) n.
                  if midpoint > BN16 (node_id n)
                  then (one\<lparr>nodes := Map_set (node_id n) n (nodes one)\<rparr>, two)
                  else (one, two\<lparr>nodes := Map_set (node_id n) n (nodes two)\<rparr>))
               (one, two) (getNodes b))"

definition removeNode :: "Node \<Rightarrow> KBucket \<Rightarrow> KBucket" where
  "removeNode n b =
     (if \<not> Map_has (nodes b) (node_id n) then b
      else let b1 = b\<lparr>nodes := Map_delete (node_id n) (nodes b)\<rparr>
           in if length (replacementNodes b1) \<noteq> 0
              then let newnode = last (replacementNodes b1)
                   in b1\<lparr>replacementNodes := butlast (replacementNodes b1),
                         nodes := Map_set (node_id newnode) newnode (nodes b1)\<rparr>
              else b1)"

definition hasInRange :: "Node \<Rightarrow> KBucket \<Rightarrow> bool" where
  "hasInRange n b =
     (let (mn, mx) = bucket_range b; i = BN16 (node_id n) in i \<ge> mn \<and> i \<le> mx)"

definition KBucket_isNewNode :: "Node \<Rightarrow> KBucket \<Rightarrow> bool" where
  "KBucket_isNewNode n b = (\<not> Map_has (nodes b) (node_id n))"

definition addNode :: "Node \<Rightarrow> KBucket \<Rightarrow> bool \<times> KBucket" where
  "addNode n b =
     (if Map_has (nodes b) (node_id n)
      then (True, b\<lparr>nodes := Map_set (node_id n) n (Map_delete (node_id n) (nodes b))\<rparr>)
      else if length (nodes b) < ksize b
      then (True, b\<lparr>nodes := Map_set (node_id n) n (nodes b)\<rparr>)
      else (False, b\<lparr>replacementNodes := OrderedSet_push n (replacementNodes b)\<rparr>))"

text \<open>
  \<open>bytesToBitString\<close>: the 160 bits of an id, most significant first.
  \<open>sharedPrefix\<close> stops at the first position where the strings differ; on an empty
  array its last line reads \<open>args[0].substring\<close> of \<open>undefined\<close>, a \<open>TypeError\<close>.
\<close>

definition bytesToBitString :: "ident \<Rightarrow> bool list" where
  "bytesToBitString i = map (bit i) (rev [0..<160])"

function sharedPrefix_loop :: "bool list list \<Rightarrow> nat \<Rightarrow> nat \<Rightarrow> nat" where
  "sharedPrefix_loop args mn i =
     (if i < mn \<and> length (remdups (map (\<lambda>v. v ! i) args)) = 1
      then sharedPrefix_loop args mn (i + 1) else i)"
  by pat_completeness auto
termination
  by (relation "measure (\<lambda>(args, mn, i). mn - i)") auto

declare sharedPrefix_loop.simps [simp del]

definition sharedPrefix :: "bool list list \<Rightarrow> error + bool list" where
  "sharedPrefix args =
     (case args of
        [] \<Rightarrow> Inl TypeError
      | a # _ \<Rightarrow> Inr (take (sharedPrefix_loop args (Min (set (map length args))) 0) a))"

definition depth :: "KBucket \<Rightarrow> error + nat" where
  "depth b =
     (case sharedPrefix (map (\<lambda>e. bytesToBitString (fst e)) (nodes b)) of
        Inl e \<Rightarrow> Inl e
      | Inr p \<Rightarrow> Inr (length p))"

definition head :: "KBucket \<Rightarrow> Node option" where
  "head b = (case getNodes b of [] \<Rightarrow> None | n # _ \<Rightarrow> Some n)"

record RoutingTable =
  rt_node :: Node
  rt_ksize :: nat
  buckets :: "KBucket list"

definition flush :: "int \<Rightarrow> RoutingTable \<Rightarrow> RoutingTable" where
  "flush now t = t\<lparr>buckets := [new_KBucket 0 (2 ^ 160) (rt_ksize t) now]\<rparr>"

definition new_RoutingTable :: "nat \<Rightarrow> Node \<Rightarrow> int \<Rightarrow> RoutingTable" where
  "new_RoutingTable ksz n now = flush now \<lparr>rt_node = n, rt_ksize = ksz, buckets = []\<rparr>"

definition splitBucket :: "int \<Rightarrow> nat \<Rightarrow> RoutingTable \<Rightarrow> RoutingTable" where
  "splitBucket now index t =
     (let (one, two) = split now (buckets t ! index)
      in t\<lparr>buckets := take index (buckets t) @ [one, two] @ drop (index + 1) (buckets t)\<rparr>)"

definition getLonelyBuckets :: "int \<Rightarrow> RoutingTable \<Rightarrow> KBucket list" where
  "getLonelyBuckets now t = (let hrago = now - 3600000 in filter (\<lambda>b. lastUpdated b < hrago) (buckets t))"

text \<open>
  \<open>getBucketFor\<close>: the index of the first bucket whose upper bound is not below the
  id; \<open>undefined\<close> (\<open>None\<close>) when there is none. Indexing \<open>buckets\<close> with \<open>undefined\<close>
  and calling a method on the result is a \<open>TypeError\<close>.
\<close>

fun getBucketFor_from :: "nat \<Rightarrow> KBucket list \<Rightarrow> Node \<Rightarrow> nat option" where
  "getBucketFor_from index [] n = None"
| "getBucketFor_from index (b # bs) n =
     (if snd (bucket_range b) \<ge> BN16 (node_id n) then Some index
      else getBucketFor_from (index + 1) bs n)"

definition getBucketFor :: "Node \<Rightarrow> RoutingTable \<Rightarrow> nat option" where
  "getBucketFor n t = getBucketFor_from 0 (buckets t) n"

definition removeContact :: "Node \<Rightarrow> RoutingTable \<Rightarrow> error + RoutingTable" where
  "removeContact n t =
     (case getBucketFor n t of
        None \<Rightarrow> Inl TypeError
      | Some index \<Rightarrow> Inr (t\<lparr>buckets := (buckets t)[index := removeNode n (buckets t ! index)]\<rparr>))"

definition isNewNode :: "Node \<Rightarrow> RoutingTable \<Rightarrow> error + bool" where
  "isNewNode n t =
     (case getBucketFor n t of
        None \<Rightarrow> Inl TypeError
      | Some index \<Rightarrow> Inr (KBucket_isNewNode n (buckets t ! index)))"

text \<open>
  \<open>addContact\<close> calls itself after a split. The first argument bounds the number of
  calls: \<open>None\<close> says that the bound was reached. The result is the table and the nodes
  handed to \<open>callPing\<close>.
\<close>

fun addContact :: "nat \<Rightarrow> int \<Rightarrow> Node \<Rightarrow> RoutingTable \<Rightarrow> (error + RoutingTable \<times> Node list) option" where
  "addContact 0 now n t = None"
| "addContact (Suc fuel) now n t =
     (case getBucketFor n t of
        None \<Rightarrow> Some (Inl TypeError)
      | Some index \<Rightarrow>
          let (added, bucket) = addNode n (buckets t ! index);
              t1 = t\<lparr>buckets := (buckets t)[index := bucket]\<rparr>
          in if added then Some (Inr (t1, []))
             else let rng = hasInRange (rt_node t1) bucket
                  in case depth bucket of
                       Inl e \<Rightarrow> Some (Inl e)
                     | Inr d \<Rightarrow>
                         if rng \<or> d mod 5 \<noteq> 0
                         then addContact fuel now n (splitBucket now index t1)
                         else Some (Inr (t1, case head bucket of None \<Rightarrow> [] | Some h \<Rightarrow> [h])))"

text \<open>
  \<open>TableTraverser\<close>: the nodes of the starting bucket from the last to the first, then
  the buckets to the left and to the right in turn, each popped from the end of its
  array. The iterator ends when it is the right side's turn and no bucket is left there.
\<close>

function traverse :: "Node list \<Rightarrow> KBucket list \<Rightarrow> KBucket list \<Rightarrow> bool \<Rightarrow> Node list" where
  "traverse currentNodes leftBuckets rightBuckets left =
     (if currentNodes \<noteq> [] then last currentNodes # traverse (butlast currentNodes) leftBuckets rightBuckets left
      else if left \<and> leftBuckets \<noteq> []
      then traverse (getNodes (last leftBuckets)) (butlast leftBuckets) rightBuckets False
      else if rightBuckets \<noteq> []
      then traverse (getNodes (last rightBuckets)) leftBuckets (butlast rightBuckets) True
      else [])"
  by pat_completeness auto
termination
  by (relation "measures [\<lambda>(c, l, r, f). length l + length r, \<lambda>(c, l, r, f). length c]") auto

declare traverse.simps [simp del]

text \<open>
  \<open>findNeighbors\<close>. The loop pushes the neighbours onto the array \<open>nodes\<close> with the
  default comparison of the package \<open>heap\<close>, which is the parameter \<open>cmp0\<close>, and
  breaks when the array holds \<open>k\<close> entries; \<open>k || this.ksize\<close> replaces \<open>null\<close> and
  \<open>0\<close>. The result also holds the table, whose starting bucket was touched.
\<close>

fun collect :: "((nat \<times> Node) \<Rightarrow> (nat \<times> Node) \<Rightarrow> int) \<Rightarrow> Node \<Rightarrow> nat \<Rightarrow> Node option
    \<Rightarrow> (nat \<times> Node) list \<Rightarrow> Node list \<Rightarrow> (nat \<times> Node) list" where
  "collect cmp0 n k exclude acc [] = acc"
| "collect cmp0 n k exclude acc (neighbor # rest) =
     (let notexcluded = (case exclude of None \<Rightarrow> True | Some x \<Rightarrow> \<not> sameHomeAs neighbor x);
          acc1 = (if node_id neighbor \<noteq> node_id n \<and> notexcluded
                  then heappush cmp0 acc (distanceTo n neighbor, neighbor) else acc)
      in if length acc1 = k then acc1 else collect cmp0 n k exclude acc1 rest)"

definition findNeighbors :: "((nat \<times> Node) \<Rightarrow> (nat \<times> Node) \<Rightarrow> int) \<Rightarrow> int \<Rightarrow> Node \<Rightarrow> nat option
    \<Rightarrow> Node option \<Rightarrow> RoutingTable \<Rightarrow> error + Node list \<times> RoutingTable" where
  "findNeighbors cmp0 now n k exclude t =
     (let kk = (case k of None \<Rightarrow> rt_ksize t | Some j \<Rightarrow> if j = 0 then rt_ksize t else j)
      in case getBucketFor n t of
           None \<Rightarrow> Inl TypeError
         | Some index \<Rightarrow>
             let t1 = t\<lparr>buckets := (buckets t)[index := touchLastUpdated now (buckets t ! index)]\<rparr>;
                 table = traverse (getNodes (buckets t1 ! index)) (take index (buckets t1))
                           (drop (index + 1) (buckets t1)) True;
                 found = collect cmp0 n kk exclude [] table
             in Inr (map snd (nsmallest found kk), t1))"

text \<open>The nodes of a bucket as the entries that \<open>nodes.set(id, node)\<close> stores for them.\<close>

definition keyed :: "Node list \<Rightarrow> (ident, Node) jsmap" where
  "keyed ns = map (\<lambda>n. (node_id n, n)) ns"

text \<open>
  Sample data. \<open>nodeM\<close> has the id \<open>8000...0\<close>, the midpoint of the first bucket;
  \<open>nodeG\<close> has the id \<open>c000...1\<close>. \<open>bucket0\<close> is the first bucket of a table holding
  \<open>nodeM\<close>. \<open>table1\<close> and \<open>table2\<close> are the tables of a server \<open>nodeS\<close> with
  \<open>ksize = 1\<close> after \<open>addContact(nodeM)\<close> and after \<open>addContact(nodeP)\<close>.
\<close>

definition nodeM :: Node where
  "nodeM = \<lparr>node_id = 2 ^ 159, ip = Some ''10.0.0.5'', port = Some 13001\<rparr>"

definition nodeS :: Node where
  "nodeS = \<lparr>node_id = 2 ^ 160 - 1, ip = Some ''10.0.0.1'', port = Some 13001\<rparr>"

definition nodeP :: Node where
  "nodeP = \<lparr>node_id = 2 ^ 159 + 5, ip = Some ''10.0.0.6'', port = Some 13001\<rparr>"

definition nodeG :: Node where
  "nodeG = \<lparr>node_id = 3 * 2 ^ 158 + 1, ip = Some ''10.0.0.7'', port = Some 13001\<rparr>"

definition bucket0 :: KBucket where
  "bucket0 = (new_KBucket 0 (2 ^ 160) 20 0)\<lparr>nodes := [(2 ^ 159, nodeM)]\<rparr>"

definition table1 :: RoutingTable where
  "table1 = \<lparr>rt_node = nodeS, rt_ksize = 1,
     buckets = [(new_KBucket 0 (2 ^ 160) 1 0)\<lparr>nodes := [(2 ^ 159, nodeM)]\<rparr>]\<rparr>"

definition table2 :: RoutingTable where
  "table2 = \<lparr>rt_node = nodeS, rt_ksize = 1,
     buckets = [new_KBucket 0 (2 ^ 159) 1 0,
                (new_KBucket (2 ^ 159 + 1) (3 * 2 ^ 158 + 1 / 2) 1 0)
                  \<lparr>nodes := [(2 ^ 159, nodeM)], replacementNodes := [nodeP]\<rparr>,
                new_KBucket (3 * 2 ^ 158 + 3 / 2) (2 ^ 160) 1 0]\<rparr>"

section \<open>KademliaProtocol (p2p/kademlia/protocol.js)\<close>

record 'v KademliaProtocol =
  router :: RoutingTable
  storage :: "(string, 'v) ForgetfulStorage"
  sourceNode :: Node

text \<open>
  \<open>toString(16)\<close> of an integral \<open>BigNumber\<close>: its hexadecimal digits in lower case,
  after a minus sign when it is negative.
\<close>

definition hexdigit :: "nat \<Rightarrow> char" where
  "hexdigit d = ''0123456789abcdef'' ! d"

function hex :: "nat \<Rightarrow> string" where
  "hex n = (if n < 16 then [hexdigit n] else hex (n div 16) @ [hexdigit (n mod 16)])"
  by pat_completeness auto
termination
  by (relation "measure (\<lambda>n. n)") auto

declare hex.simps [simp del]

definition toString16 :: "int \<Rightarrow> string" where
  "toString16 num = (if num < 0 then CHR ''-'' # hex (nat (- num)) else hex (nat num))"

definition BIT_EMPTY :: string where
  "BIT_EMPTY = ''0000000000000000000000000000000000000000''"

definition BIT_SPACE :: nat where
  "BIT_SPACE = 40"

text \<open>\<open>s.slice(-n)\<close>: the last \<open>n\<close> characters of \<open>s\<close>, all of \<open>s\<close> when it is shorter.\<close>

definition slice_last :: "nat \<Rightarrow> string \<Rightarrow> string" where
  "slice_last n s = drop (length s - n) s"

text \<open>
  The body of the \<open>map\<close> in \<open>getRefreshIDs\<close>, for one bucket range and the value
  \<open>rnd\<close> of \<open>random()\<close>, a number in \<open>[0, 1)\<close>.
\<close>

definition refreshID :: "rat \<times> rat \<Rightarrow> rat \<Rightarrow> string" where
  "refreshID r rnd =
     (let (mn, mx) = r;
          sub = mx - mn;
          num = integerValue (sub * rnd + sub);
          hx = toString16 num
      in slice_last BIT_SPACE (BIT_EMPTY @ hx))"

text \<open>\<open>random i\<close> is the value of the \<open>i\<close>-th call of \<open>random()\<close>.\<close>

definition getRefreshIDs :: "int \<Rightarrow> (nat \<Rightarrow> rat) \<Rightarrow> 'v KademliaProtocol \<Rightarrow> string list" where
  "getRefreshIDs now random p =
     (let bs = getLonelyBuckets now (router p)
      in map (\<lambda>(i, b). refreshID (bucket_range b) (random i)) (zip [0..<length bs] bs))"

text \<open>The number that a string of hexadecimal digits denotes, as \<open>BN(id, 16)\<close> reads it.\<close>

definition hexval :: "char \<Rightarrow> nat" where
  "hexval c = (if c \<in> set ''0123456789'' then of_char c - 48 else of_char c - 87)"

definition hex_value :: "string \<Rightarrow> nat" where
  "hex_value s = foldl (\<lambda>a c. 16 * a + hexval c) 0 s"

text \<open>
  \<open>welcomeIfNewNode\<close>. \<open>digest\<close> is SHA-1, a parameter. The loop over the stored items
  returns the calls of \<open>callStore\<close> as triples \<open>(node, key, value)\<close>, in the order they
  are made, and the table, whose buckets \<open>findNeighbors\<close> touches.
\<close>

definition new_Node :: "ident \<Rightarrow> Node" where
  "new_Node i = \<lparr>node_id = i, ip = None, port = None\<rparr>"

fun welcome_loop :: "((nat \<times> Node) \<Rightarrow> (nat \<times> Node) \<Rightarrow> int) \<Rightarrow> (string \<Rightarrow> ident) \<Rightarrow> int \<Rightarrow> Node \<Rightarrow> Node
    \<Rightarrow> (string \<times> 'v) list \<Rightarrow> RoutingTable \<Rightarrow> error + (Node \<times> string \<times> 'v) list \<times> RoutingTable" where
  "welcome_loop cmp0 digest now n this [] r = Inr ([], r)"
| "welcome_loop cmp0 digest now n this ((key, val) # storages) r =
     (let keynode = new_Node (digest key)
      in case findNeighbors cmp0 now keynode None None r of
           Inl e \<Rightarrow> Inl e
         | Inr (neighbors, r1) \<Rightarrow>
             let l = length neighbors;
                 newNodeClose = (l > 0 \<and> distanceTo n keynode < distanceTo (neighbors ! (l - 1)) keynode);
                 thisNodeClosest = (l > 0 \<and> distanceTo this keynode < distanceTo (neighbors ! 0) keynode);
                 calls = (if l = 0 \<or> (newNodeClose \<and> thisNodeClosest) then [(n, key, val)] else [])
             in case welcome_loop cmp0 digest now n this storages r1 of
                  Inl e \<Rightarrow> Inl e
                | Inr (later, r2) \<Rightarrow> Inr (calls @ later, r2))"

text \<open>
  The result of \<open>welcomeIfNewNode\<close>: the calls of \<open>callStore\<close>, the nodes handed to
  \<open>callPing\<close> by \<open>addContact\<close>, and the protocol with its table and its culled storage.
  \<open>None\<close> says that \<open>addContact\<close> reached the bound on its calls.
\<close>

definition welcomeIfNewNode :: "((nat \<times> Node) \<Rightarrow> (nat \<times> Node) \<Rightarrow> int) \<Rightarrow> (string \<Rightarrow> ident) \<Rightarrow> nat \<Rightarrow> int
    \<Rightarrow> Node \<Rightarrow> 'v KademliaProtocol
    \<Rightarrow> (error + (Node \<times> string \<times> 'v) list \<times> Node list \<times> 'v KademliaProtocol) option" where
  "welcomeIfNewNode cmp0 digest fuel now n p =
     (case isNewNode n (router p) of
        Inl e \<Rightarrow> Some (Inl e)
      | Inr new \<Rightarrow>
          if \<not> new then Some (Inr ([], [], p))
          else let (storages, st) = items now (storage p)
               in case welcome_loop cmp0 digest now n (sourceNode p) storages (router p) of
                    Inl e \<Rightarrow> Some (Inl e)
                  | Inr (calls, r1) \<Rightarrow>
                      (case addContact fuel now n r1 of
                         None \<Rightarrow> None
                       | Some (Inl e) \<Rightarrow> Some (Inl e)
                       | Some (Inr (r2, pings)) \<Rightarrow>
                           Some (Inr (calls, pings, p\<lparr>router := r2, storage := st\<rparr>))))"

text \<open>
  \<open>handleCallResponse(result, node)\<close>: \<open>result\<close> is the pair that the RPC layer
  resolved the call with. It is returned unchanged; the model returns the effects.
\<close>

definition handleCallResponse :: "((nat \<times> Node) \<Rightarrow> (nat \<times> Node) \<Rightarrow> int) \<Rightarrow> (string \<Rightarrow> ident) \<Rightarrow> nat \<Rightarrow> int
    \<Rightarrow> bool \<times> 'd option \<Rightarrow> Node \<Rightarrow> 'v KademliaProtocol
    \<Rightarrow> (error + (Node \<times> string \<times> 'v) list \<times> Node list \<times> 'v KademliaProtocol) option" where
  "handleCallResponse cmp0 digest fuel now result n p =
     (if \<not> fst result
      then (case removeContact n (router p) of
              Inl e \<Rightarrow> Some (Inl e)
            | Inr r \<Rightarrow> Some (Inr ([], [], p\<lparr>router := r\<rparr>)))
      else welcomeIfNewNode cmp0 digest fuel now n p)"

text \<open>A bucket without its \<open>lastUpdated\<close> stamp; two tables hold the same contacts when their
  buckets differ in these stamps only.\<close>

definition untimed :: "KBucket \<Rightarrow> KBucket" where
  "untimed b = b\<lparr>lastUpdated := 0\<rparr>"

definition contacts_eq :: "RoutingTable \<Rightarrow> RoutingTable \<Rightarrow> bool" where
  "contacts_eq t t' =
     (rt_node t = rt_node t' \<and> rt_ksize t = rt_ksize t' \<and> map untimed (buckets t) = map untimed (buckets t'))"






definition stored_nodes :: "RoutingTable \<Rightarrow> Node list" where
  "stored_nodes t = concat (map getNodes (buckets t))"

text \<open>Sample protocol: two contacts in the first bucket, one stored item.\<close>

definition table3 :: RoutingTable where
  "table3 = \<lparr>rt_node = nodeT, rt_ksize = 20,
     buckets = [(new_KBucket 0 (2 ^ 160) 20 0)\<lparr>nodes := [(5, nodeA), (12, nodeB)]\<rparr>]\<rparr>"

definition proto3 :: "nat KademliaProtocol" where
  "proto3 = \<lparr>router = table3, storage = \<lparr>entries = [(''k1'', (0, 7))], ttl = 20000\<rparr>, sourceNode = nodeT\<rparr>"

text \<open>Sample protocol on \<open>table2\<close>, whose buckets were all made at time \<open>0\<close>.\<close>

definition proto2 :: "nat KademliaProtocol" where
  "proto2 = \<lparr>router = table2, storage = store0, sourceNode = nodeS\<rparr>"

text \<open>Sample protocol on \<open>table1\<close>, with an empty storage.\<close>

definition proto1 :: "nat KademliaProtocol" where
  "proto1 = \<lparr>router = table1, storage = \<lparr>entries = [], ttl = 20000\<rparr>, sourceNode = nodeS\<rparr>"




text \<open>
  Sample table of a server \<open>nodeT\<close> with \<open>ksize = 1\<close>, reached from a new table by
  \<open>addContact(nodeX)\<close> and \<open>addContact(nodeA)\<close>; \<open>table6'\<close> is that table after
  \<open>addContact(nodeP)\<close>.
\<close>

definition nodeX :: Node where
  "nodeX = \<lparr>node_id = 2 ^ 159 + 7, ip = Some ''10.0.0.8'', port = Some 13001\<rparr>"

definition table6 :: RoutingTable where
  "table6 = \<lparr>rt_node = nodeT, rt_ksize = 1,
     buckets = [(new_KBucket 0 (2 ^ 159) 1 0)\<lparr>nodes := [(5, nodeA)]\<rparr>,
                (new_KBucket (2 ^ 159 + 1) (2 ^ 160) 1 0)\<lparr>nodes := [(2 ^ 159 + 7, nodeX)]\<rparr>]\<rparr>"



section \<open>RPCProtocol (p2p/rpcudp/index.js)\<close>

text \<open>
  The state of the transport that the claims are about: the \<open>_outstanding\<close> map from
  message ids to \<open>[f, timeout]\<close>, the timers armed by \<open>setTimeout\<close> with the message
  id they will pass to \<open>_timeout\<close>, the \<open>transport.send\<close> calls whose callback has not
  run yet, and the calls of \<open>f.resolve\<close> made so far. The \<open>i\<close>-th call of \<open>rpc\<close>
  creates the promise \<open>i\<close> and the timer \<open>i\<close>. A promise takes the value of the first
  \<open>resolve\<close>; the list keeps every call.
\<close>

type_synonym msgid = string

record 'd RPCProtocol =
  outstanding :: "msgid \<rightharpoonup> nat \<times> nat"
  timers :: "nat \<rightharpoonup> msgid"
  sending :: "nat \<rightharpoonup> msgid"
  resolved :: "(nat \<times> bool \<times> 'd option) list"
  next_id :: nat

definition new_RPCProtocol :: "'d RPCProtocol" where
  "new_RPCProtocol = \<lparr>outstanding = Map.empty, timers = Map.empty, sending = Map.empty,
                       resolved = [], next_id = 0\<rparr>"

text \<open>
  \<open>rpc(name, address, ...args)\<close> with the message id \<open>m\<close> it drew and the length
  \<open>len\<close> of the framed request. The \<open>throw\<close> for a long request calls the class
  \<open>MalformedMessage\<close> without \<open>new\<close>, which is a \<open>TypeError\<close>.
\<close>

definition rpc :: "nat \<Rightarrow> msgid \<Rightarrow> 'd RPCProtocol \<Rightarrow> error + 'd RPCProtocol" where
  "rpc len m s =
     (if len > 512 then Inl TypeError
      else let i = next_id s
           in Inr (s\<lparr>timers := (timers s)(i \<mapsto> m), sending := (sending s)(i \<mapsto> m), next_id := i + 1\<rparr>))"

text \<open>The callback of \<open>transport.send\<close> of the \<open>i\<close>-th call registers the pending entry.\<close>

definition send_callback :: "nat \<Rightarrow> 'd RPCProtocol \<Rightarrow> 'd RPCProtocol" where
  "send_callback i s =
     (case sending s i of
        None \<Rightarrow> s
      | Some m \<Rightarrow> s\<lparr>outstanding := (outstanding s)(m \<mapsto> (i, i)), sending := (sending s)(i := None)\<rparr>)"

definition acceptResponse :: "msgid \<Rightarrow> 'd \<Rightarrow> 'd RPCProtocol \<Rightarrow> 'd RPCProtocol" where
  "acceptResponse m d s =
     (case outstanding s m of
        None \<Rightarrow> s
      | Some (f, t) \<Rightarrow>
          s\<lparr>timers := (timers s)(t := None),
            resolved := resolved s @ [(f, True, Some d)],
            outstanding := (outstanding s)(m := None)\<rparr>)"

text \<open>
  \<open>_timeout(msgid)\<close> destructures \<open>this._outstanding.get(msgid)\<close>, a \<open>TypeError\<close>
  when the entry is missing.
\<close>

definition timeout :: "msgid \<Rightarrow> 'd RPCProtocol \<Rightarrow> error + 'd RPCProtocol" where
  "timeout m s =
     (case outstanding s m of
        None \<Rightarrow> Inl TypeError
      | Some (f, t) \<Rightarrow>
          Inr (s\<lparr>resolved := resolved s @ [(f, False, None)],
                 outstanding := (outstanding s)(m := None)\<rparr>))"

text \<open>The events of the transport; a timer fires once, and only while it is armed.\<close>

datatype 'd event = Rpc nat msgid | Sent nat | Response msgid 'd | Fire nat

fun step :: "'d event \<Rightarrow> 'd RPCProtocol \<Rightarrow> error + 'd RPCProtocol" where
  "step (Rpc len m) s = rpc len m s"
| "step (Sent i) s = Inr (send_callback i s)"
| "step (Response m d) s = Inr (acceptResponse m d s)"
| "step (Fire i) s =
     (case timers s i of
        None \<Rightarrow> Inr s
      | Some m \<Rightarrow> timeout m (s\<lparr>timers := (timers s)(i := None)\<rparr>))"

fun run :: "'d event list \<Rightarrow> 'd RPCProtocol \<Rightarrow> error + 'd RPCProtocol" where
  "run [] s = Inr s"
| "run (e # es) s = (case step e s of Inl x \<Rightarrow> Inl x | Inr s1 \<Rightarrow> run es s1)"

text \<open>The values that promise \<open>i\<close> was resolved with, in order.\<close>

definition completions :: "nat \<Rightarrow> 'd RPCProtocol \<Rightarrow> (bool \<times> 'd option) list" where
  "completions i s = map snd (filter (\<lambda>e. fst e = i) (resolved s))"

text \<open>Every promise and timer of the state was created by an earlier call of \<open>rpc\<close>.\<close>

definition ids_below :: "'d RPCProtocol \<Rightarrow> bool" where
  "ids_below s =
     ((\<forall>m f t. outstanding s m = Some (f, t) \<longrightarrow> f < next_id s \<and> t < next_id s)
      \<and> (\<forall>i. i \<in> dom (timers s) \<longrightarrow> i < next_id s)
      \<and> (\<forall>i. i \<in> dom (sending s) \<longrightarrow> i < next_id s)
      \<and> (\<forall>e\<in>set (resolved s). fst e < next_id s))"

text \<open>The message id \<open>m\<close> is not in use in the state.\<close>

definition unused :: "msgid \<Rightarrow> 'd RPCProtocol \<Rightarrow> bool" where
  "unused m s = (outstanding s m = None \<and> m \<notin> ran (timers s) \<and> m \<notin> ran (sending s))"

text \<open>
  Events during which the call \<open>i\<close> with message id \<open>m\<close> stays pending: no response
  for \<open>m\<close>, its timer does not fire, and no other call draws the same message id.
\<close>

fun quiet :: "nat \<Rightarrow> msgid \<Rightarrow> 'd event \<Rightarrow> bool" where
  "quiet i m (Rpc len m') = (m' \<noteq> m)"
| "quiet i m (Sent j) = True"
| "quiet i m (Response m' d) = (m' \<noteq> m)"
| "quiet i m (Fire j) = (j \<noteq> i)"

text \<open>The call \<open>i\<close> with message id \<open>m\<close> has a registered pending entry and an armed timer.\<close>

definition pending :: "nat \<Rightarrow> msgid \<Rightarrow> 'd RPCProtocol \<Rightarrow> bool" where
  "pending i m s =
     (outstanding s m = Some (i, i) \<and> timers s i = Some m \<and> i < next_id s \<and> sending s i = None
      \<and> completions i s = []
      \<and> (\<forall>j. j \<noteq> i \<longrightarrow> sending s j \<noteq> Some m)
      \<and> (\<forall>j. j \<noteq> i \<longrightarrow> timers s j \<noteq> Some m)
      \<and> (\<forall>m' f t. m' \<noteq> m \<longrightarrow> outstanding s m' = Some (f, t) \<longrightarrow> f \<noteq> i \<and> t \<noteq> i))"

text \<open>The promise \<open>i\<close> is referred to by no entry and no send in flight.\<close>

definition retired :: "nat \<Rightarrow> 'd RPCProtocol \<Rightarrow> bool" where
  "retired i s =
     (i < next_id s \<and> sending s i = None \<and> (\<forall>m f t. outstanding s m = Some (f, t) \<longrightarrow> f \<noteq> i))"

text \<open>No entry and no send in flight has the message id \<open>m\<close>; \<open>redraws\<close> marks a later
  call of \<open>rpc\<close> that draws \<open>m\<close> again.\<close>

definition gone :: "msgid \<Rightarrow> 'd RPCProtocol \<Rightarrow> bool" where
  "gone m s = (outstanding s m = None \<and> (\<forall>j. sending s j \<noteq> Some m))"

fun redraws :: "msgid \<Rightarrow> 'd event \<Rightarrow> bool" where
  "redraws m (Rpc len m') = (m' = m)"
| "redraws m _ = False"

text \<open>Sample transport: a new one.\<close>

definition rpc0 :: "nat RPCProtocol" where
  "rpc0 = new_RPCProtocol"

section \<open>SpiderCrawl and Server (p2p/kademlia/crawling.js, p2p/kademlia/network.js)\<close>

text \<open>
  The answer of a peer to \<open>callFindNode\<close> as \<open>RPCFindResponse\<close> reads it: whether the
  peer answered at all, and the nodes it listed. \<open>net\<close> gives the answer of every peer.
\<close>

record SpiderCrawl =
  nearest :: NodeHeap
  lastIDsCrawled :: "ident list"
  alpha :: nat

definition new_SpiderCrawl :: "Node \<Rightarrow> Node list \<Rightarrow> nat \<Rightarrow> nat \<Rightarrow> SpiderCrawl" where
  "new_SpiderCrawl n peers ksz a =
     \<lparr>nearest = push peers (new_NodeHeap n ksz), lastIDsCrawled = [], alpha = a\<rparr>"

text \<open>
  One round of \<open>_find\<close> followed by \<open>_nodesFound\<close> of \<open>NodeSpiderCrawl\<close>, which calls
  \<open>find\<close> again until every visible node has been contacted; the first argument bounds
  the number of rounds and \<open>None\<close> says that the bound was reached. The ids are joined
  to a string of 40 characters per id, and \<open>count = nears.length\<close> is the length of that
  string. The effects of \<open>handleCallResponse\<close> on the routing table are left out: the
  crawl does not read the table.
\<close>

fun NodeSpiderCrawl_find :: "nat \<Rightarrow> (Node \<Rightarrow> bool \<times> Node list) \<Rightarrow> SpiderCrawl \<Rightarrow> Node list option" where
  "NodeSpiderCrawl_find 0 net sp = None"
| "NodeSpiderCrawl_find (Suc fuel) net sp =
     (let nears = getIDs (nearest sp);
          count = (if nears = lastIDsCrawled sp then 40 * length nears else alpha sp);
          uc = take count (getUncontacted (nearest sp));
          contacted1 = foldl (\<lambda>h peer. markContacted peer h) (nearest sp) uc;
          responses = map (\<lambda>peer. (node_id peer, net peer)) uc;
          toremove = map fst (filter (\<lambda>(peerid, response). \<not> fst response) responses);
          pushed = foldl (\<lambda>h (peerid, response). if fst response then push (snd response) h else h)
                     contacted1 responses;
          removed = remove toremove pushed
      in if allBeenContacted removed then Some (iterate removed)
         else NodeSpiderCrawl_find fuel net (sp\<lparr>nearest := removed, lastIDsCrawled := nears\<rparr>))"

text \<open>
  A promise as \<open>Promise.race\<close> sees it: the time at which it settles and how. The
  promise of \<open>callStore\<close> is fulfilled with the pair the RPC was resolved with, or
  rejected when \<open>rpc\<close> or \<open>handleCallResponse\<close> throws. \<open>Promise.race\<close> settles as
  the promise that settles first does, the leftmost one among promises that are settled
  already; on an empty array it never settles.
\<close>

datatype 'a settled = Fulfilled 'a | Rejected

fun race :: "(nat \<times> 'a settled) list \<Rightarrow> (nat \<times> 'a settled) option" where
  "race [] = None"
| "race (p # ps) =
     (case race ps of
        None \<Rightarrow> Some p
      | Some q \<Rightarrow> if fst q < fst p then Some q else Some p)"

text \<open>
  The state of the promise that an \<open>async\<close> function returned: still pending for ever,
  fulfilled with a value, or rejected.
\<close>

datatype 'a promise = Pending | Resolved 'a | Raised

text \<open>
  The helper \<open>any\<close> of \<open>set_digest\<close>: the value of the race when it is fulfilled; when
  it is rejected, \<open>iter.shift()\<close> drops the first promise of the array and \<open>any\<close> runs
  again.
\<close>

fun any_first :: "(nat \<times> 'a settled) list \<Rightarrow> 'a promise" where
  "any_first [] = Pending"
| "any_first (p # ps) =
     (case race (p # ps) of
        None \<Rightarrow> Pending
      | Some q \<Rightarrow> (case snd q of Fulfilled v \<Rightarrow> Resolved v | Rejected \<Rightarrow> any_first ps))"

text \<open>
  What \<open>set_digest\<close> returns: \<open>false\<close>, or the pair \<open>[ok, data]\<close> that \<open>any\<close>
  passes on.
\<close>

datatype 'd set_result = JSFalse | StoreResult "bool \<times> 'd option"

text \<open>The id of \<open>new Node(dkey)\<close> for a key digest in hexadecimal.\<close>

definition key_ident :: "string \<Rightarrow> ident" where
  "key_ident dkey = of_nat (hex_value dkey)"

text \<open>
  \<open>max.apply(null, distances)\<close> of bignumber.js is \<open>NaN\<close> for no distances, and every
  comparison with \<open>NaN\<close> is false.
\<close>

definition closer_than_biggest :: "Node \<Rightarrow> Node \<Rightarrow> Node list \<Rightarrow> bool" where
  "closer_than_biggest this n ns =
     (case ns of [] \<Rightarrow> False | _ \<Rightarrow> distanceTo this n < Max (set (map (\<lambda>m. distanceTo m n) ns)))"

text \<open>
  \<open>set_digest(dkey, value)\<close>. \<open>net\<close> answers the crawl and \<open>stores\<close> gives, for each
  node, the promise of its \<open>callStore\<close>. The result is the promise that \<open>set_digest\<close>
  returned and the storage; \<open>None\<close> says that the crawl reached its bound.
\<close>

definition set_digest :: "((nat \<times> Node) \<Rightarrow> (nat \<times> Node) \<Rightarrow> int) \<Rightarrow> nat \<Rightarrow> int \<Rightarrow> nat
    \<Rightarrow> (Node \<Rightarrow> bool \<times> Node list) \<Rightarrow> (Node \<Rightarrow> nat \<times> (bool \<times> 'd option) settled)
    \<Rightarrow> string \<Rightarrow> 'v \<Rightarrow> 'v KademliaProtocol
    \<Rightarrow> ('d set_result promise \<times> (string, 'v) ForgetfulStorage) option" where
  "set_digest cmp0 fuel now a net stores dkey val p =
     (let n = new_Node (key_ident dkey)
      in case findNeighbors cmp0 now n None None (router p) of
           Inl e \<Rightarrow> Some (Raised, storage p)
         | Inr (nearest0, r1) \<Rightarrow>
             if length nearest0 = 0 then Some (Resolved JSFalse, storage p)
             else case NodeSpiderCrawl_find fuel net (new_SpiderCrawl n nearest0 (rt_ksize (router p)) a) of
                    None \<Rightarrow> None
                  | Some ns \<Rightarrow>
                      let st = (if closer_than_biggest (sourceNode p) n ns
                                then IStorage_set now now dkey val (storage p) else storage p);
                          ds = map stores ns
                      in Some (case any_first ds of
                                 Pending \<Rightarrow> Pending
                               | Raised \<Rightarrow> Raised
                               | Resolved v \<Rightarrow> Resolved (StoreResult v), st))"

text \<open>
  Sample network: \<open>table4\<close> knows \<open>nodeA\<close> only, \<open>table5\<close> knows \<open>nodeA\<close> and
  \<open>nodeB\<close>. In \<open>net_silent\<close> no peer answers. In \<open>net_alive\<close> every peer answers
  with an empty list; \<open>stores_late\<close> lets the store on \<open>nodeA\<close> time out at 5000 and
  the store on \<open>nodeB\<close> succeed at 5001.
\<close>

definition table4 :: RoutingTable where
  "table4 = \<lparr>rt_node = nodeT, rt_ksize = 20,
     buckets = [(new_KBucket 0 (2 ^ 160) 20 0)\<lparr>nodes := [(5, nodeA)]\<rparr>]\<rparr>"

definition proto4 :: "nat KademliaProtocol" where
  "proto4 = \<lparr>router = table4, storage = \<lparr>entries = [], ttl = 20000\<rparr>, sourceNode = nodeT\<rparr>"

definition proto5 :: "nat KademliaProtocol" where
  "proto5 = \<lparr>router = table3, storage = \<lparr>entries = [], ttl = 20000\<rparr>, sourceNode = nodeT\<rparr>"

definition net_silent :: "Node \<Rightarrow> bool \<times> Node list" where
  "net_silent peer = (False, [])"

definition net_alive :: "Node \<Rightarrow> bool \<times> Node list" where
  "net_alive peer = (True, [])"

definition stores_late :: "Node \<Rightarrow> nat \<times> (bool \<times> nat option) settled" where
  "stores_late peer =
     (if node_id peer = 5 then (5000, Fulfilled (False, None)) else (5001, Fulfilled (True, Some 1)))"

text \<open>A key digest whose id is \<open>6\<close>.\<close>

definition dkey6 :: string where
  "dkey6 = ''0000000000000000000000000000000000000006''"

text \<open>
  \<open>bootstrap_node(addr)\<close> of the server, after its \<open>ping\<close> was resolved with
  \<open>result\<close>, the pair \<open>[ok, id]\<close>: \<open>null\<close> when \<open>ok\<close> is false, else
  \<open>new Node(id, ip, port)\<close>, whose \<open>Buffer.from(id, 'hex')\<close> is a \<open>TypeError\<close>
  when \<open>id\<close> is \<open>null\<close>. The protocol is handed back as it was: the routing table
  is not touched.
\<close>

definition bootstrap_node :: "bool \<times> ident option \<Rightarrow> string \<times> nat \<Rightarrow> 'v KademliaProtocol
    \<Rightarrow> error + Node option \<times> 'v KademliaProtocol" where
  "bootstrap_node result addr p =
     (if fst result
      then (case snd result of
              None \<Rightarrow> Inl TypeError
            | Some i \<Rightarrow> Inr (Some \<lparr>node_id = i, ip = Some (fst addr), port = Some (snd addr)\<rparr>, p))
      else Inr (None, p))"

section \<open>Storage: expiry and the order of stamps\<close>

lemma Map_set_absent: "\<not> Map_has m k \<Longrightarrow> Map_set k v m = m @ [(k, v)]"
  by (induction m) (auto simp: Map_has_def)

lemma Map_has_delete: "\<not> Map_has (Map_delete k m) k"
  by (auto simp: Map_has_def Map_delete_def)

lemma Map_delete_absent: "\<not> Map_has m k \<Longrightarrow> Map_delete k m = m"
  by (induction m) (auto simp: Map_has_def Map_delete_def)

lemma Map_delete_head: "k \<notin> set (map fst m) \<Longrightarrow> Map_delete k ((k, v) # m) = m"
  by (induction m) (auto simp: Map_delete_def)

lemma pop_FIFO_entries:
  "distinct (map fst (entries s)) \<Longrightarrow> entries (snd (pop FIFO s)) = tl (entries s)"
  by (cases "entries s") (auto simp: pop_def Let_def Map_delete_head)

lemma pop_ttl: "ttl (snd (pop d s)) = ttl s"
  by (simp add: pop_def Let_def)

lemma pops_entries:
  "distinct (map fst (entries s)) \<Longrightarrow> entries (pops n s) = drop n (entries s)"
proof (induction n arbitrary: s)
  case 0
  then show ?case by simp
next
  case (Suc n)
  have d: "distinct (map fst (entries (snd (pop FIFO s))))"
    using Suc.prems by (simp add: pop_FIFO_entries distinct_tl map_tl)
  show ?case
    using Suc.IH [OF d] Suc.prems by (simp add: pop_FIFO_entries drop_Suc)
qed

lemma pops_ttl: "ttl (pops n s) = ttl s"
  by (induction n arbitrary: s) (simp_all add: pop_ttl)

lemma length_older: "length (iteritemsOlderThan now life s) = length (filter (expired now life) (entries s))"
proof -
  have "length (filter (\<lambda>(k, t, v). now - life \<ge> t) (map (\<lambda>(k, (t, v)). (k, t, v)) xs))
      = length (filter (expired now life) xs)" for xs :: "('a \<times> int \<times> 'b) list"
    by (induction xs) (auto simp: expired_def)
  then show ?thesis
    by (simp add: iteritemsOlderThan_def tripleIterable_def Let_def)
qed

lemma sorted_drop_expired:
  "sorted (map (\<lambda>e. fst (snd e)) xs) \<Longrightarrow>
   drop (length (filter (expired now life) xs)) xs = filter (\<lambda>e. \<not> expired now life e) xs"
proof (induction xs)
  case Nil
  then show ?case by simp
next
  case (Cons x xs)
  show ?case
  proof (cases "expired now life x")
    case True
    then show ?thesis using Cons by simp
  next
    case False
    have "\<forall>y\<in>set xs. \<not> expired now life y"
      using Cons.prems False by (auto simp: expired_def)
    then have "filter (expired now life) xs = []" "filter (\<lambda>e. \<not> expired now life e) xs = xs"
      by (simp_all add: filter_empty_conv filter_id_conv)
    then show ?thesis using False by simp
  qed
qed

lemma cull_entries:
  "stamps_ordered s \<Longrightarrow> entries (cull now s) = filter (\<lambda>e. \<not> expired now (ttl s) e) (entries s)"
  by (simp add: cull_def pops_entries stamps_ordered_def length_older sorted_drop_expired stamps_def)

lemma cull_ttl: "ttl (cull now s) = ttl s"
  by (simp add: cull_def pops_ttl)

lemma ordered_filter: "stamps_ordered s \<Longrightarrow> stamps_ordered (s\<lparr>entries := filter P (entries s)\<rparr>)"
  by (simp add: stamps_ordered_def stamps_def distinct_map_filter sorted_filter)

lemma ordered_cull: "stamps_ordered s \<Longrightarrow> stamps_ordered (cull now s)"
proof -
  assume w: "stamps_ordered s"
  have "cull now s = s\<lparr>entries := filter (\<lambda>e. \<not> expired now (ttl s) e) (entries s)\<rparr>"
    using cull_entries [OF w, of now] cull_ttl [of now s]
    by (cases s, cases "cull now s") simp
  then show ?thesis using ordered_filter [OF w] by simp
qed

lemma ordered_pop: "stamps_ordered s \<Longrightarrow> stamps_ordered (snd (pop d s))"
  using ordered_filter [of s] by (simp add: pop_def Let_def Map_delete_def)

lemma ordered_get: "stamps_ordered s \<Longrightarrow> stamps_ordered (snd (IStorage_get now key s))"
  by (simp add: IStorage_get_def Let_def ordered_cull)

lemma ordered_items: "stamps_ordered s \<Longrightarrow> stamps_ordered (snd (items now s))"
  by (simp add: items_def Let_def ordered_cull)

lemma set_before_cull:
  "(if Map_has (entries s) key then s\<lparr>entries := Map_delete key (entries s)\<rparr> else s)
     = s\<lparr>entries := Map_delete key (entries s)\<rparr>"
  by (simp add: Map_delete_absent)

lemma ordered_appended:
  assumes "stamps_ordered s" "upto_now stamp s"
  shows "stamps_ordered (s\<lparr>entries := Map_delete key (entries s) @ [(key, (stamp, val))]\<rparr>)"
proof -
  have d: "distinct (map fst (Map_delete key (entries s) @ [(key, (stamp, val))]))"
    using assms(1) by (auto simp: stamps_ordered_def Map_delete_def distinct_map_filter)
  have "sorted (map (\<lambda>e. fst (snd e)) (Map_delete key (entries s)))"
    using assms(1) by (simp add: stamps_ordered_def stamps_def Map_delete_def sorted_filter)
  moreover have "\<forall>e\<in>set (Map_delete key (entries s)). fst (snd e) \<le> stamp"
    using assms(2) by (auto simp: upto_now_def Map_delete_def)
  ultimately have "sorted (map (\<lambda>e. fst (snd e)) (Map_delete key (entries s) @ [(key, (stamp, val))]))"
    by (auto simp: sorted_append)
  with d show ?thesis by (simp add: stamps_ordered_def stamps_def)
qed

lemma set_entries:
  assumes "stamps_ordered s" "upto_now stamp s"
  shows "entries (IStorage_set stamp now key val s)
       = filter (\<lambda>e. \<not> expired now (ttl s) e) (Map_delete key (entries s) @ [(key, (stamp, val))])"
proof -
  let ?s2 = "s\<lparr>entries := Map_delete key (entries s) @ [(key, (stamp, val))]\<rparr>"
  have "IStorage_set stamp now key val s = cull now ?s2"
    by (simp add: IStorage_set_def set_before_cull Map_set_absent Map_has_delete)
  then show ?thesis
    using cull_entries [OF ordered_appended [OF assms], of now key val] by simp
qed

lemma set_ttl: "ttl (IStorage_set stamp now key val s) = ttl s"
  by (simp add: IStorage_set_def Let_def cull_ttl)

lemma ordered_set:
  assumes "stamps_ordered s" "upto_now stamp s"
  shows "stamps_ordered (IStorage_set stamp now key val s)"
proof -
  let ?s2 = "s\<lparr>entries := Map_delete key (entries s) @ [(key, (stamp, val))]\<rparr>"
  have "IStorage_set stamp now key val s = cull now ?s2"
    by (simp add: IStorage_set_def set_before_cull Map_set_absent Map_has_delete)
  then show ?thesis
    using ordered_cull [OF ordered_appended [OF assms]] by simp
qed

lemma upto_now_mono: "upto_now t s \<Longrightarrow> t \<le> t' \<Longrightarrow> upto_now t' s"
  by (auto simp: upto_now_def)

lemma holds_since_cull:
  assumes "holds_since key val t0 life t s" "t \<le> now"
  shows "holds_since key val t0 life now (cull now s)"
proof -
  have w: "stamps_ordered s" and l: "ttl s = life" using assms(1) by (simp_all add: holds_since_def)
  have e: "entries (cull now s) = filter (\<lambda>e. \<not> expired now life e) (entries s)"
    using cull_entries [OF w] l by simp
  have "now - t0 < life \<longrightarrow> (key, (t0, val)) \<in> set (entries (cull now s))"
    using assms e by (auto simp: holds_since_def expired_def)
  moreover have "upto_now now (cull now s)"
    using assms e by (auto simp: holds_since_def upto_now_def)
  moreover have "\<forall>e\<in>set (entries (cull now s)). fst e = key \<longrightarrow> snd e = (t0, val)"
    using assms(1) e by (auto simp: holds_since_def)
  ultimately show ?thesis
    using ordered_cull [OF w] l by (simp add: holds_since_def cull_ttl)
qed

lemma holds_since_set_other:
  assumes "holds_since key val t0 life t s" "t \<le> stamp" "stamp \<le> now" "k \<noteq> key"
  shows "holds_since key val t0 life now (IStorage_set stamp now k v s)"
proof -
  have w: "stamps_ordered s" and l: "ttl s = life" and u: "upto_now stamp s"
    using assms(1,2) by (auto simp: holds_since_def intro: upto_now_mono)
  have e: "entries (IStorage_set stamp now k v s)
         = filter (\<lambda>e. \<not> expired now life e) (Map_delete k (entries s) @ [(k, (stamp, v))])"
    using set_entries [OF w u] l by simp
  have "now - t0 < life \<longrightarrow> (key, (t0, val)) \<in> set (entries (IStorage_set stamp now k v s))"
    using assms e by (auto simp: holds_since_def expired_def Map_delete_def)
  moreover have "upto_now now (IStorage_set stamp now k v s)"
    using assms e by (auto simp: holds_since_def upto_now_def Map_delete_def)
  moreover have "\<forall>e\<in>set (entries (IStorage_set stamp now k v s)). fst e = key \<longrightarrow> snd e = (t0, val)"
    using assms(1,4) e by (auto simp: holds_since_def Map_delete_def)
  ultimately show ?thesis
    using ordered_set [OF w u] l by (simp add: holds_since_def set_ttl)
qed

lemma holds_since_set_self:
  assumes "stamps_ordered s" "upto_now t0 s" "t0 \<le> now"
  shows "holds_since key val t0 (ttl s) now (IStorage_set t0 now key val s)"
proof -
  have e: "entries (IStorage_set t0 now key val s)
         = filter (\<lambda>e. \<not> expired now (ttl s) e) (Map_delete key (entries s) @ [(key, (t0, val))])"
    using set_entries [OF assms(1,2)] by simp
  have "now - t0 < ttl s \<longrightarrow> (key, (t0, val)) \<in> set (entries (IStorage_set t0 now key val s))"
    using e by (auto simp: expired_def)
  moreover have "upto_now now (IStorage_set t0 now key val s)"
    using assms e by (auto simp: upto_now_def Map_delete_def)
  moreover have "\<forall>e\<in>set (entries (IStorage_set t0 now key val s)). fst e = key \<longrightarrow> snd e = (t0, val)"
    using e by (auto simp: Map_delete_def)
  ultimately show ?thesis
    using ordered_set [OF assms(1,2)] by (simp add: holds_since_def set_ttl)
qed

lemma holds_since_calls:
  assumes "holds_since key val t0 life t s" "clock_ok t cs" "\<forall>c\<in>set cs. \<not> sets_key key c"
  shows "holds_since key val t0 life (last_clock t cs) (run_calls cs s)"
  using assms
proof (induction cs arbitrary: t s)
  case Nil
  then show ?case by simp
next
  case (Cons c cs)
  show ?case
  proof (cases c)
    case (CallSet stamp now k v)
    have "holds_since key val t0 life now (IStorage_set stamp now k v s)"
      using Cons.prems CallSet by (intro holds_since_set_other [where t = t]) auto
    then show ?thesis using Cons.IH [of now "IStorage_set stamp now k v s"] Cons.prems CallSet by simp
  next
    case (CallGet now k)
    have "holds_since key val t0 life now (cull now s)"
      using Cons.prems CallGet by (intro holds_since_cull [where t = t]) auto
    moreover have "snd (IStorage_get now k s) = cull now s"
      by (simp add: IStorage_get_def Let_def)
    ultimately show ?thesis using Cons.IH [of now "cull now s"] Cons.prems CallGet by simp
  next
    case (CallItems now)
    have "holds_since key val t0 life now (cull now s)"
      using Cons.prems CallItems by (intro holds_since_cull [where t = t]) auto
    moreover have "snd (items now s) = cull now s"
      by (simp add: items_def Let_def)
    ultimately show ?thesis using Cons.IH [of now "cull now s"] Cons.prems CallItems by simp
  next
    case (CallCull now)
    have "holds_since key val t0 life now (cull now s)"
      using Cons.prems CallCull by (intro holds_since_cull [where t = t]) auto
    then show ?thesis using Cons.IH [of now "cull now s"] Cons.prems CallCull by simp
  qed
qed

lemma get_after_holds:
  assumes "holds_since key val t0 life t s" "t \<le> t1"
  shows "(t1 - t0 < life \<longrightarrow> fst (IStorage_get t1 key s) = Some val)
       \<and> (t1 - t0 > life \<longrightarrow> fst (IStorage_get t1 key s) = None)"
proof -
  have h: "holds_since key val t0 life t1 (cull t1 s)"
    using holds_since_cull [OF assms] .
  have w: "stamps_ordered s" and l: "ttl s = life" using assms(1) by (simp_all add: holds_since_def)
  have e: "entries (cull t1 s) = filter (\<lambda>e. \<not> expired t1 life e) (entries s)"
    using cull_entries [OF w] l by simp
  have d: "distinct (map fst (entries (cull t1 s)))"
    using h by (simp add: holds_since_def stamps_ordered_def)
  have a: "fst (IStorage_get t1 key s) = Some val" if "t1 - t0 < life"
  proof -
    have m: "(key, (t0, val)) \<in> set (entries (cull t1 s))"
      using h that by (simp add: holds_since_def)
    then have "map_of (entries (cull t1 s)) key = Some (t0, val)"
      using d by simp
    moreover have "Map_has (entries (cull t1 s)) key"
      using m by (force simp: Map_has_def)
    ultimately show ?thesis
      by (simp add: IStorage_get_def Let_def Map_get_def)
  qed
  have b: "fst (IStorage_get t1 key s) = None" if "t1 - t0 > life"
  proof -
    have "\<not> Map_has (entries (cull t1 s)) key"
    proof
      assume "Map_has (entries (cull t1 s)) key"
      then obtain e where m: "e \<in> set (entries (cull t1 s))" and k: "fst e = key"
        by (auto simp: Map_has_def)
      then have "snd e = (t0, val)" using h by (simp add: holds_since_def)
      moreover have "\<not> expired t1 life e" using m e by simp
      ultimately show False using that by (simp add: expired_def)
    qed
    then show ?thesis by (simp add: IStorage_get_def Let_def)
  qed
  from a b show ?thesis by blast
qed

text \<open>
  Claim C4. After \<open>set(key, val)\<close> stamped \<open>t0\<close>, and after any further calls of
  \<open>set\<close> on other keys, \<open>get\<close>, \<open>items\<close> and \<open>cull\<close> made while the clock
  does not run backwards, \<open>get(key)\<close> at clock reading \<open>t1\<close> returns \<open>val\<close> when less
  than the TTL has elapsed since the set, and returns the default (absent) when more than
  the TTL has elapsed: the expired entry is culled by that very \<open>get\<close>. The store the
  calls start from is any store whose keys are distinct, whose stamps are in insertion
  order and not in the future.
\<close>

theorem ForgetfulStorage_ttl:
  assumes "stamps_ordered s" and "upto_now t0 s" and "t0 \<le> now"
    and "clock_ok now cs" and "\<forall>c\<in>set cs. \<not> sets_key key c"
    and "last_clock now cs \<le> t1"
  shows "(t1 - t0 < ttl s \<longrightarrow>
            fst (IStorage_get t1 key (run_calls cs (IStorage_set t0 now key val s))) = Some val)
       \<and> (t1 - t0 > ttl s \<longrightarrow>
            fst (IStorage_get t1 key (run_calls cs (IStorage_set t0 now key val s))) = None)"
  using get_after_holds [OF holds_since_calls [OF holds_since_set_self [OF assms(1,2,3)] assms(4,5)] assms(6)]
  by blast

theorem ForgetfulStorage_ttl_witness:
  "stamps_ordered store0 \<and> upto_now 10 store0 \<and> (10::int) \<le> 11
   \<and> clock_ok 11 [CallSet 15 15 ''k2'' 9, CallGet 19000 ''k1'']
   \<and> \<not> sets_key ''k1'' (CallSet 15 15 ''k2'' (9::nat))
   \<and> \<not> sets_key ''k1'' (CallGet 19000 ''k1'' :: (string, nat) storage_call)
   \<and> last_clock 11 [CallSet 15 15 ''k2'' (9::nat), CallGet 19000 ''k1''] \<le> 20000
   \<and> last_clock 11 [CallSet 15 15 ''k2'' (9::nat), CallGet 19000 ''k1''] \<le> 20011
   \<and> fst (IStorage_get 20000 ''k1''
        (run_calls [CallSet 15 15 ''k2'' 9, CallGet 19000 ''k1''] (IStorage_set 10 11 ''k1'' 8 store0))) = Some 8
   \<and> fst (IStorage_get 20011 ''k1''
        (run_calls [CallSet 15 15 ''k2'' 9, CallGet 19000 ''k1''] (IStorage_set 10 11 ''k1'' 8 store0))) = None"
  using ForgetfulStorage_ttl [of store0 10 11 "[CallSet 15 15 ''k2'' 9, CallGet 19000 ''k1'']" "''k1''" 20000 8]
    ForgetfulStorage_ttl [of store0 10 11 "[CallSet 15 15 ''k2'' 9, CallGet 19000 ''k1'']" "''k1''" 20011 8]
  by (simp add: store0_def stamps_ordered_def stamps_def upto_now_def)

text \<open>
  Claim C9. The stamps of a \<open>ForgetfulStorage\<close> are non-decreasing in iteration order.
  \<open>set\<close> deletes the prior entry of the key and appends the fresh one before it culls,
  and keeps the order when its stamp is not older than the stamps already stored (the
  clock does not run backwards); \<open>get\<close>, \<open>cull\<close> and \<open>pop\<close> keep it always. On such
  a store \<open>cull\<close>, which pops one oldest entry per expired item, leaves exactly the
  entries that have not expired.
\<close>

theorem ForgetfulStorage_invariant:
  assumes "stamps_ordered s"
  shows "(upto_now stamp s \<longrightarrow>
            stamps_ordered (IStorage_set stamp now key val s)
          \<and> entries (IStorage_set stamp now key val s)
              = entries (cull now (s\<lparr>entries := Map_delete key (entries s) @ [(key, (stamp, val))]\<rparr>)))
       \<and> stamps_ordered (snd (IStorage_get now key s))
       \<and> stamps_ordered (cull now s)
       \<and> stamps_ordered (snd (pop d s))
       \<and> entries (cull now s) = filter (\<lambda>e. \<not> expired now (ttl s) e) (entries s)"
proof -
  have "entries (IStorage_set stamp now key val s)
      = entries (cull now (s\<lparr>entries := Map_delete key (entries s) @ [(key, (stamp, val))]\<rparr>))"
    by (simp add: IStorage_set_def set_before_cull Map_set_absent Map_has_delete)
  then show ?thesis
    using assms ordered_set [of s stamp now key val] ordered_get [of s now key] ordered_cull [of s now]
      ordered_pop [of s d] cull_entries [of s now]
    by blast
qed

theorem ForgetfulStorage_invariant_witness:
  "stamps_ordered store0 \<and> upto_now 5 store0
   \<and> stamps_ordered (IStorage_set 5 6 ''k1'' 8 store0)
   \<and> entries (IStorage_set 5 6 ''k1'' 8 store0)
        = entries (cull 6 (store0\<lparr>entries := Map_delete ''k1'' (entries store0) @ [(''k1'', (5, 8))]\<rparr>))
   \<and> stamps_ordered (snd (IStorage_get 6 ''k1'' store0))
   \<and> stamps_ordered (cull 6 store0)
   \<and> stamps_ordered (snd (pop FIFO store0))
   \<and> entries (cull 6 store0) = filter (\<lambda>e. \<not> expired 6 (ttl store0) e) (entries store0)"
proof -
  have h: "stamps_ordered store0"
    by (simp add: store0_def stamps_ordered_def stamps_def)
  have u: "upto_now 5 store0"
    by (simp add: store0_def upto_now_def)
  show ?thesis
    using h u ForgetfulStorage_invariant [OF h, of 5 6 "''k1''" 8 FIFO] by blast
qed

section \<open>NodeHeap: the nearest nodes, one entry per id\<close>

lemma mset_siftdown: "pos < length array \<Longrightarrow> mset (siftdown cmp array pos) = mset array"
proof (induction cmp array pos rule: siftdown.induct)
  case (1 cmp array pos)
  show ?case
  proof (cases "pos > 0 \<and> cmp (array ! pos) (array ! ((pos - 1) div 2)) < 0")
    case True
    have p: "(pos - 1) div 2 < length array" using "1.prems" by simp
    have "mset (siftdown cmp (array[pos := array ! ((pos - 1) div 2), (pos - 1) div 2 := array ! pos]) ((pos - 1) div 2))
        = mset (array[pos := array ! ((pos - 1) div 2), (pos - 1) div 2 := array ! pos])"
      using True p by (intro "1.IH") simp_all
    also have "\<dots> = mset array"
      using "1.prems" p by (simp add: mset_swap)
    finally show ?thesis using True by (subst siftdown.simps) (simp add: Let_def)
  next
    case False
    then show ?thesis by (subst siftdown.simps) (auto simp: Let_def)
  qed
qed

lemma mset_heappush: "mset (heappush cmp array item) = add_mset item (mset array)"
  by (simp add: heappush_def mset_siftdown)

lemma xor_inj: "(t::ident) XOR a = t XOR b \<Longrightarrow> a = b"
  by (metis bit.xor_left_self)

lemma distanceTo_inj: "distanceTo t a = distanceTo t b \<Longrightarrow> node_id a = node_id b"
  unfolding distanceTo_def using xor_inj by (metis unsigned_word_eqI)

lemma has_iff: "has h n \<longleftrightarrow> node_id n \<in> heap_ids h"
  by (auto simp: has_def heap_ids_def list_ex_iff)

lemma set_heappush: "set (heappush cmp array item) = insert item (set array)"
  using mset_heappush [of cmp array item] by (metis set_mset_add_mset_insert set_mset_mset)

lemma heap_ids_heappush:
  "heap_ids (h\<lparr>heap := heappush cmp (heap h) e\<rparr>) = insert (node_id (snd e)) (heap_ids h)"
  by (simp add: heap_ids_def set_heappush)

lemma snd_tagged: "snd (tagged t n) = n"
  by (simp add: tagged_def)

lemma fst_tagged: "fst (tagged t n) = distanceTo t n"
  by (simp add: tagged_def)

lemma push_fields: "node (push ns h) = node h \<and> maxsize (push ns h) = maxsize h \<and> contacted (push ns h) = contacted h"
  by (induction ns arbitrary: h) simp_all

lemma mset_push:
  "mset (heap (push ns h)) = mset (heap h) + mset (map (tagged (node h)) (fresh (heap_ids h) ns))"
proof (induction ns arbitrary: h)
  case Nil
  then show ?case by simp
next
  case (Cons n ns)
  show ?case
  proof (cases "has h n")
    case True
    then show ?thesis using Cons.IH [of h] by (simp add: has_iff)
  next
    case False
    let ?h = "h\<lparr>heap := heappush compare (heap h) (distanceTo (node h) n, n)\<rparr>"
    have "mset (heap (push ns ?h)) = mset (heap ?h) + mset (map (tagged (node ?h)) (fresh (heap_ids ?h) ns))"
      by (rule Cons.IH)
    then show ?thesis
      using False by (simp add: has_iff heap_ids_heappush mset_heappush snd_tagged flip: tagged_def)
  qed
qed

lemma heap_ids_push: "heap_ids (push ns h) = heap_ids h \<union> node_id ` set ns"
proof (induction ns arbitrary: h)
  case Nil
  then show ?case by simp
next
  case (Cons n ns)
  show ?case
    using Cons.IH [of h] Cons.IH [of "h\<lparr>heap := heappush compare (heap h) (distanceTo (node h) n, n)\<rparr>"]
    by (auto simp: has_iff heap_ids_heappush)
qed

lemma fresh_append: "fresh S (xs @ ys) = fresh S xs @ fresh (S \<union> node_id ` set xs) ys"
  by (induction xs arbitrary: S) (auto simp: insert_absorb)

lemma pushes_fields: "node (pushes nss h) = node h \<and> maxsize (pushes nss h) = maxsize h"
  unfolding pushes_def by (induction nss arbitrary: h) (simp_all add: push_fields)

lemma mset_pushes:
  "mset (heap (pushes nss h)) = mset (heap h) + mset (map (tagged (node h)) (fresh (heap_ids h) (concat nss)))"
  unfolding pushes_def
proof (induction nss arbitrary: h)
  case Nil
  then show ?case by simp
next
  case (Cons ns nss)
  show ?case
    using Cons.IH [of "push ns h"]
    by (simp add: mset_push heap_ids_push fresh_append push_fields)
qed

lemma fresh_subset: "set (fresh S ns) \<subseteq> set ns"
  by (induction ns arbitrary: S) auto

lemma fresh_ids: "node_id ` set (fresh S ns) = node_id ` set ns - S"
  by (induction ns arbitrary: S) auto

lemma fresh_distinct: "distinct (map node_id (fresh S ns))"
proof (induction ns arbitrary: S)
  case Nil
  then show ?case by simp
next
  case (Cons n ns)
  have "node_id n \<notin> node_id ` set (fresh (insert (node_id n) S) ns)"
    by (simp add: fresh_ids)
  then show ?case using Cons.IH by simp
qed

lemma length_fresh: "length (fresh {} ns) = card (node_id ` set ns)"
proof -
  have "length (fresh {} ns) = length (map node_id (fresh {} ns))" by simp
  also have "\<dots> = card (set (map node_id (fresh {} ns)))"
    using fresh_distinct [of "{}" ns] by (simp only: distinct_card)
  also have "\<dots> = card (node_id ` set ns)"
    using fresh_ids [of "{}" ns] by simp
  finally show ?thesis .
qed

lemma distinct_distances: "distinct (map node_id ns) \<Longrightarrow> distinct (map (distanceTo t) ns)"
proof (induction ns)
  case Nil
  then show ?case by simp
next
  case (Cons n ns)
  have "distanceTo t n \<notin> distanceTo t ` set ns"
  proof
    assume "distanceTo t n \<in> distanceTo t ` set ns"
    then obtain m where m: "m \<in> set ns" "distanceTo t n = distanceTo t m" by auto
    have "node_id n = node_id m" using m(2) by (rule distanceTo_inj)
    then have "node_id n \<in> node_id ` set ns" using m(1) by (rule image_eqI)
    then show False using Cons.prems by simp
  qed
  then show ?case using Cons by simp
qed

lemma filter_key_single:
  "distinct (map f xs) \<Longrightarrow> k \<in> set xs \<Longrightarrow> filter (\<lambda>x. f k = f x) xs = [k]"
proof (induction xs)
  case Nil
  then show ?case by simp
next
  case (Cons x xs)
  show ?case
  proof (cases "k = x")
    case True
    have "\<forall>y\<in>set xs. f x \<noteq> f y" using Cons.prems by auto
    then have "filter (\<lambda>y. f x = f y) xs = []" by (simp add: filter_empty_conv)
    then show ?thesis using True by simp
  next
    case False
    then have "k \<in> set xs" using Cons.prems by simp
    moreover have "f k \<noteq> f x" using Cons.prems calculation by (metis distinct.simps(2) image_eqI list.simps(9) set_map)
    ultimately show ?thesis using Cons by simp
  qed
qed

lemma sort_key_unique:
  assumes "mset xs = mset ys" "distinct (map f ys)"
  shows "sort_key f xs = sort_key f ys"
proof (rule properties_for_sort_key)
  show "mset (sort_key f ys) = mset xs" using assms(1) by simp
  show "sorted (map f (sort_key f ys))" by simp
  fix k assume k: "k \<in> set (sort_key f ys)"
  have "mset (map f xs) = mset (map f ys)" using assms(1) by simp
  then have dx: "distinct (map f xs)"
    using assms(2) mset_eq_imp_distinct_iff by blast
  have "mset (map f (sort_key f ys)) = mset (map f ys)" by simp
  then have "distinct (map f (sort_key f ys))"
    using assms(2) mset_eq_imp_distinct_iff by blast
  moreover have "k \<in> set xs" using k assms(1) by (metis mset_eq_setD set_sort)
  ultimately show "filter (\<lambda>x. f k = f x) (sort_key f ys) = filter (\<lambda>x. f k = f x) xs"
    using k dx by (simp add: filter_key_single)
qed

lemma insort_key_map_both:
  "insort_key f (g x) (map g xs) = map g (insort_key (\<lambda>y. f (g y)) x xs)"
  by (induction xs) simp_all

lemma sort_key_map_both: "sort_key f (map g xs) = map g (sort_key (\<lambda>y. f (g y)) xs)"
  by (induction xs) (simp_all add: sort_key_simps insort_key_map_both)

lemma sort_key_tagged: "map snd (sort_key fst (map (tagged t) ns)) = sort_key (distanceTo t) ns"
  by (simp add: sort_key_map_both tagged_def comp_def)

lemma iterate_pushes:
  "iterate (pushes nss (new_NodeHeap t k)) = take k (sort_key (distanceTo t) (fresh {} (concat nss)))"
proof -
  let ?F = "fresh {} (concat nss)"
  let ?h = "pushes nss (new_NodeHeap t k)"
  have m: "mset (heap ?h) = mset (map (tagged t) ?F)"
    using mset_pushes [of nss "new_NodeHeap t k"] by (simp add: new_NodeHeap_def heap_ids_def)
  have "map fst (map (tagged t) ?F) = map (distanceTo t) ?F"
    by (induction ?F) (simp_all add: tagged_def)
  then have d: "distinct (map fst (map (tagged t) ?F))"
    using distinct_distances [OF fresh_distinct, of t "{}" "concat nss"] by (simp only:)
  have "sort_key fst (heap ?h) = sort_key fst (map (tagged t) ?F)"
    using sort_key_unique [OF m d] .
  moreover have "maxsize ?h = k"
    using pushes_fields [of nss "new_NodeHeap t k"] by (simp add: new_NodeHeap_def)
  ultimately show ?thesis
    by (simp add: iterate_def nsmallest_def sort_key_tagged flip: take_map)
qed

lemma take_sorted_below:
  assumes "sorted (map f xs)" "x \<in> set (take k xs)" "y \<in> set (drop k xs)"
  shows "f x \<le> f y"
proof -
  have "sorted (map f (take k xs) @ map f (drop k xs))"
    using assms(1) by (metis append_take_drop_id map_append)
  then show ?thesis using assms(2,3) by (auto simp: sorted_append)
qed

text \<open>
  Claim C7. For a \<open>NodeHeap\<close> of capacity \<open>k\<close> around the target \<open>t\<close>, after any
  sequence of \<open>push\<close> calls, the iterator yields the first-pushed node of every id,
  sorted by distance to \<open>t\<close> and cut to \<open>k\<close>: as many nodes as there are distinct
  pushed ids, at most \<open>k\<close>; in strictly ascending distance; all of them pushed; and
  every pushed node whose id is not yielded is strictly farther from \<open>t\<close> than every
  yielded node.
\<close>

theorem NodeHeap_nearest:
  "iterate (pushes nss (new_NodeHeap t k)) = take k (sort_key (distanceTo t) (fresh {} (concat nss)))
   \<and> length (iterate (pushes nss (new_NodeHeap t k))) = min (card (node_id ` set (concat nss))) k
   \<and> sorted_wrt (<) (map (distanceTo t) (iterate (pushes nss (new_NodeHeap t k))))
   \<and> set (iterate (pushes nss (new_NodeHeap t k))) \<subseteq> set (concat nss)
   \<and> (\<forall>n\<in>set (concat nss).
         node_id n \<in> node_id ` set (iterate (pushes nss (new_NodeHeap t k)))
         \<or> (\<forall>m\<in>set (iterate (pushes nss (new_NodeHeap t k))). distanceTo t m < distanceTo t n))"
proof -
  let ?F = "fresh {} (concat nss)"
  let ?S = "sort_key (distanceTo t) ?F"
  let ?out = "iterate (pushes nss (new_NodeHeap t k))"
  have out: "?out = take k ?S" by (rule iterate_pushes)
  have len: "length ?out = min (card (node_id ` set (concat nss))) k"
    by (simp add: out length_fresh)
  have "mset (map (distanceTo t) ?S) = mset (map (distanceTo t) ?F)" by simp
  then have dS: "distinct (map (distanceTo t) ?S)"
    using distinct_distances [OF fresh_distinct, of t "{}" "concat nss"]
    using mset_eq_imp_distinct_iff by blast
  have sS: "sorted (map (distanceTo t) ?S)" by simp
  have "sorted (take k (map (distanceTo t) ?S))" using sS by (rule sorted_wrt_take)
  moreover have "distinct (take k (map (distanceTo t) ?S))" using dS by (rule distinct_take)
  ultimately have "sorted (map (distanceTo t) (take k ?S)) \<and> distinct (map (distanceTo t) (take k ?S))"
    by (simp only: take_map)
  then have asc: "sorted_wrt (<) (map (distanceTo t) ?out)"
    by (simp add: out strict_sorted_iff)
  have sub: "set ?out \<subseteq> set (concat nss)"
    using fresh_subset [of "{}" "concat nss"] set_take_subset [of k ?S] by (auto simp: out)
  have near: "node_id n \<in> node_id ` set ?out \<or> (\<forall>m\<in>set ?out. distanceTo t m < distanceTo t n)"
    if n: "n \<in> set (concat nss)" for n
  proof (cases "node_id n \<in> node_id ` set ?out")
    case True
    then show ?thesis by simp
  next
    case False
    have "node_id n \<in> node_id ` set ?F" using n by (simp add: fresh_ids)
    then obtain f where f: "f \<in> set ?S" "node_id f = node_id n" by auto
    then have "f \<notin> set (take k ?S)" using False out by (metis image_eqI)
    moreover have "set ?S = set (take k ?S) \<union> set (drop k ?S)"
      by (simp flip: set_append)
    ultimately have fd: "f \<in> set (drop k ?S)"
      using f(1) by blast
    have "distanceTo t m < distanceTo t n" if m: "m \<in> set ?out" for m
    proof -
      have le: "distanceTo t m \<le> distanceTo t f"
        using take_sorted_below [OF sS _ fd] m out by simp
      have "node_id m \<noteq> node_id f" using False m f(2) by (metis image_eqI)
      then have "distanceTo t m \<noteq> distanceTo t f" using distanceTo_inj by blast
      moreover have "distanceTo t f = distanceTo t n" using f(2) by (simp add: distanceTo_def)
      ultimately show ?thesis using le by simp
    qed
    then show ?thesis by blast
  qed
  show ?thesis
  proof (intro conjI ballI)
    show "?out = take k ?S" by (rule out)
    show "length ?out = min (card (node_id ` set (concat nss))) k" by (rule len)
    show "sorted_wrt (<) (map (distanceTo t) ?out)" by (rule asc)
    show "set ?out \<subseteq> set (concat nss)" by (rule sub)
    show "node_id n \<in> node_id ` set ?out \<or> (\<forall>m\<in>set ?out. distanceTo t m < distanceTo t n)"
      if "n \<in> set (concat nss)" for n using that by (rule near)
  qed
qed

lemma push_present: "has h n \<Longrightarrow> push [n] h = h"
  by simp

lemma ids_distinct_push:
  assumes "ids_distinct h"
  shows "ids_distinct (push ns h)"
proof -
  let ?g = "\<lambda>e. node_id (snd e)"
  let ?F = "fresh (heap_ids h) ns"
  have "mset (heap (push ns h)) = mset (heap h @ map (tagged (node h)) ?F)"
    by (simp add: mset_push)
  then have m: "mset (map ?g (heap (push ns h))) = mset (map ?g (heap h @ map (tagged (node h)) ?F))"
    by (metis mset_map)
  have e: "map ?g (map (tagged (node h)) ?F) = map node_id ?F"
    by (simp add: snd_tagged)
  have "set (map ?g (heap h)) \<inter> set (map node_id ?F) = {}"
    using fresh_ids [of "heap_ids h" ns] by (auto simp: heap_ids_def)
  then have "distinct (map ?g (heap h) @ map node_id ?F)"
    using assms fresh_distinct [of "heap_ids h" ns] by (simp add: ids_distinct_def)
  then have "distinct (map ?g (heap h @ map (tagged (node h)) ?F))"
    by (simp only: map_append e)
  then show ?thesis
    using m mset_eq_imp_distinct_iff unfolding ids_distinct_def by blast
qed

lemma mset_rebuild:
  "mset (foldl (\<lambda>nheap e. if P e then heappush cmp nheap e else nheap) acc xs)
     = mset acc + mset (filter P xs)"
  by (induction xs arbitrary: acc) (simp_all add: mset_heappush)

lemma ids_distinct_remove:
  assumes "ids_distinct h"
  shows "ids_distinct (remove is h)"
proof (cases "length (remdups is) = 0")
  case True
  then show ?thesis using assms by (simp add: remove_def)
next
  case False
  let ?g = "\<lambda>e. node_id (snd e)"
  let ?P = "\<lambda>e. node_id (snd e) \<notin> set is"
  have "mset (heap (remove is h)) = mset (filter ?P (heap h))"
    using False by (simp add: remove_def mset_rebuild)
  then have "mset (map ?g (heap (remove is h))) = mset (map ?g (filter ?P (heap h)))"
    by (metis mset_map)
  moreover have "distinct (map ?g (filter ?P (heap h)))"
    using assms by (simp add: ids_distinct_def distinct_map_filter)
  ultimately show ?thesis
    using mset_eq_imp_distinct_iff unfolding ids_distinct_def by blast
qed

lemma ids_distinct_mark: "ids_distinct h \<Longrightarrow> ids_distinct (markContacted n h)"
  by (simp add: markContacted_def ids_distinct_def)

lemma ids_distinct_call: "ids_distinct h \<Longrightarrow> ids_distinct (run_heap_call h c)"
  by (cases c) (simp_all add: ids_distinct_push ids_distinct_remove ids_distinct_mark)

lemma ids_distinct_calls: "ids_distinct h \<Longrightarrow> ids_distinct (heap_calls cs h)"
  unfolding heap_calls_def by (induction cs arbitrary: h) (simp_all add: ids_distinct_call)

text \<open>
  Claim C10. \<open>push\<close> of a node whose id some entry of the heap already has leaves
  the heap unchanged, whatever the host and port of the pushed node; and after any calls
  of \<open>push\<close>, \<open>remove\<close> and \<open>markContacted\<close> on a new heap no two entries have the
  same id.
\<close>

theorem NodeHeap_push_dedup:
  "((\<exists>e\<in>set (heap h). node_id (snd e) = node_id n) \<longrightarrow> push [n] h = h)
   \<and> ids_distinct (heap_calls cs (new_NodeHeap t k))"
proof -
  have "ids_distinct (new_NodeHeap t k)" by (simp add: ids_distinct_def new_NodeHeap_def)
  then have "ids_distinct (heap_calls cs (new_NodeHeap t k))" by (rule ids_distinct_calls)
  moreover have "(\<exists>e\<in>set (heap h). node_id (snd e) = node_id n) \<longrightarrow> push [n] h = h"
    by (auto simp: has_def list_ex_iff)
  ultimately show ?thesis by blast
qed

lemma heap_eval: "heap (push [nodeB, nodeA] (new_NodeHeap nodeT 2)) = [(1, nodeA), (8, nodeB)]"
  by (simp add: new_NodeHeap_def has_def heappush_def siftdown.simps compare_def distanceTo_def
      nodeA_def nodeB_def nodeT_def)

theorem NodeHeap_nearest_witness:
  "iterate (pushes [[nodeB, nodeA], [nodeC, nodeA']] (new_NodeHeap nodeT 2)) = [nodeA, nodeC]
   \<and> length (iterate (pushes [[nodeB, nodeA], [nodeC, nodeA']] (new_NodeHeap nodeT 2)))
        = min (card (node_id ` set (concat [[nodeB, nodeA], [nodeC, nodeA']]))) 2
   \<and> sorted_wrt (<) (map (distanceTo nodeT) (iterate (pushes [[nodeB, nodeA], [nodeC, nodeA']] (new_NodeHeap nodeT 2))))
   \<and> (node_id nodeB \<in> node_id ` set (iterate (pushes [[nodeB, nodeA], [nodeC, nodeA']] (new_NodeHeap nodeT 2)))
        \<or> (\<forall>m\<in>set (iterate (pushes [[nodeB, nodeA], [nodeC, nodeA']] (new_NodeHeap nodeT 2))).
              distanceTo nodeT m < distanceTo nodeT nodeB))"
proof -
  let ?nss = "[[nodeB, nodeA], [nodeC, nodeA']]"
  have m: "nodeB \<in> set (concat ?nss)" by simp
  have e: "take 2 (sort_key (distanceTo nodeT) (fresh {} (concat ?nss))) = [nodeA, nodeC]"
    by (simp add: distanceTo_def nodeA_def nodeB_def nodeC_def nodeA'_def nodeT_def)
  show ?thesis
    using NodeHeap_nearest [of ?nss nodeT 2] m e by metis
qed

theorem NodeHeap_push_dedup_witness:
  "ip nodeA' \<noteq> ip nodeA \<and> port nodeA' \<noteq> port nodeA
   \<and> push [nodeA'] (push [nodeB, nodeA] (new_NodeHeap nodeT 2)) = push [nodeB, nodeA] (new_NodeHeap nodeT 2)
   \<and> ids_distinct (heap_calls [HPush [nodeB, nodeA], HPush [nodeA'], HRemove [12], HMark nodeA]
         (new_NodeHeap nodeT 2))"
proof -
  have "(1, nodeA) \<in> set (heap (push [nodeB, nodeA] (new_NodeHeap nodeT 2)))"
    by (subst heap_eval) simp
  moreover have "node_id (snd (1::nat, nodeA)) = node_id nodeA'"
    by (simp add: nodeA_def nodeA'_def)
  ultimately have "\<exists>e\<in>set (heap (push [nodeB, nodeA] (new_NodeHeap nodeT 2))). node_id (snd e) = node_id nodeA'"
    by blast
  moreover have "ip nodeA' \<noteq> ip nodeA \<and> port nodeA' \<noteq> port nodeA"
    by (simp add: nodeA_def nodeA'_def)
  ultimately show ?thesis
    using NodeHeap_push_dedup [of "push [nodeB, nodeA] (new_NodeHeap nodeT 2)" nodeA'
        "[HPush [nodeB, nodeA], HPush [nodeA'], HRemove [12], HMark nodeA]" nodeT 2]
    by blast
qed

section \<open>KBucket and RoutingTable: splitting\<close>

lemma floor_rat_numeral: "\<lfloor>(numeral a :: rat) / numeral b\<rfloor> = numeral a div numeral b"
  by (metis floor_divide_of_int_eq of_int_numeral)

lemmas routing_eval = getBucketFor_def addNode_def Map_has_def hasInRange_def splitBucket_def split_def
  new_KBucket_def BN_div_def round_half_up_def floor_rat_numeral getNodes_def BN16_def
  new_RoutingTable_def flush_def OrderedSet_push_def head_def

lemma loop_single: "i \<le> length a \<Longrightarrow> sharedPrefix_loop [a] (length a) i = length a"
proof (induction "length a - i" arbitrary: i)
  case 0
  then show ?case by (subst sharedPrefix_loop.simps) simp
next
  case (Suc d)
  then have "sharedPrefix_loop [a] (length a) (i + 1) = length a" by simp
  moreover have "i < length a" using Suc.hyps(2) by simp
  ultimately show ?case by (subst sharedPrefix_loop.simps) simp
qed

lemma depth_single: "nodes b = [(i, n)] \<Longrightarrow> depth b = Inr 160"
  using loop_single [of 0 "bytesToBitString i"]
  by (simp add: depth_def sharedPrefix_def bytesToBitString_def)

lemma Map_set_append: "k \<notin> fst ` set m \<Longrightarrow> Map_set k v m = m @ [(k, v)]"
  by (induction m) auto

lemma split_fold:
  assumes "distinct (map node_id ns)"
    and "node_id ` set ns \<inter> fst ` set (nodes one) = {}"
    and "node_id ` set ns \<inter> fst ` set (nodes two) = {}"
  shows "foldl (\<lambda>(one, two) n.
                  if P n
                  then (one\<lparr>nodes := Map_set (node_id n) n (nodes one)\<rparr>, two)
                  else (one, two\<lparr>nodes := Map_set (node_id n) n (nodes two)\<rparr>))
               (one, two) ns
       = (one\<lparr>nodes := nodes one @ keyed (filter P ns)\<rparr>,
          two\<lparr>nodes := nodes two @ keyed (filter (\<lambda>n. \<not> P n) ns)\<rparr>)"
  using assms
proof (induction ns arbitrary: one two)
  case Nil
  then show ?case by (simp add: keyed_def)
next
  case (Cons n ns)
  have n1: "node_id n \<notin> fst ` set (nodes one)" and n2: "node_id n \<notin> fst ` set (nodes two)"
    using Cons.prems(2,3) by auto
  have d: "distinct (map node_id ns)" and nn: "node_id n \<notin> node_id ` set ns"
    using Cons.prems(1) by auto
  show ?case
  proof (cases "P n")
    case True
    let ?one = "one\<lparr>nodes := nodes one @ [(node_id n, n)]\<rparr>"
    have "node_id ` set ns \<inter> fst ` set (nodes ?one) = {}"
      using Cons.prems(2) nn by auto
    moreover have "node_id ` set ns \<inter> fst ` set (nodes two) = {}"
      using Cons.prems(3) by auto
    ultimately show ?thesis
      using Cons.IH [OF d, of ?one two] True n1 by (simp add: Map_set_append keyed_def)
  next
    case False
    let ?two = "two\<lparr>nodes := nodes two @ [(node_id n, n)]\<rparr>"
    have "node_id ` set ns \<inter> fst ` set (nodes ?two) = {}"
      using Cons.prems(3) nn by auto
    moreover have "node_id ` set ns \<inter> fst ` set (nodes one) = {}"
      using Cons.prems(2) by auto
    ultimately show ?thesis
      using Cons.IH [OF d, of one ?two] False n2 by (simp add: Map_set_append keyed_def)
  qed
qed

text \<open>
  What \<open>split\<close> does with the nodes of any bucket: the nodes whose id is strictly below
  the midpoint go to the lower bucket, all others to the upper bucket, whose range starts
  at the midpoint plus one; no node is lost or added.
\<close>

lemma split_nodes:
  assumes "distinct (map node_id (getNodes b))"
  shows "getNodes (fst (split now b)) = filter (\<lambda>n. BN16 (node_id n) < midpoint_of b) (getNodes b)
       \<and> getNodes (snd (split now b)) = filter (\<lambda>n. \<not> BN16 (node_id n) < midpoint_of b) (getNodes b)
       \<and> bucket_range (fst (split now b)) = (fst (bucket_range b), midpoint_of b)
       \<and> bucket_range (snd (split now b)) = (midpoint_of b + 1, snd (bucket_range b))
       \<and> set (getNodes (fst (split now b))) \<union> set (getNodes (snd (split now b))) = set (getNodes b)"
proof -
  obtain mn mx where r: "bucket_range b = (mn, mx)" by (cases "bucket_range b")
  let ?m = "BN_div (mn + mx) 2"
  let ?one = "new_KBucket mn ?m (ksize b) now"
  let ?two = "new_KBucket (?m + 1) mx (ksize b) now"
  have s: "split now b = (?one\<lparr>nodes := nodes ?one @ keyed (filter (\<lambda>n. ?m > BN16 (node_id n)) (getNodes b))\<rparr>,
          ?two\<lparr>nodes := nodes ?two @ keyed (filter (\<lambda>n. \<not> ?m > BN16 (node_id n)) (getNodes b))\<rparr>)"
    unfolding split_def r Let_def prod.case
    by (rule split_fold [OF assms]) (simp_all add: new_KBucket_def)
  have k: "map snd (keyed xs) = xs" for xs by (induction xs) (simp_all add: keyed_def)
  have m: "midpoint_of b = ?m" by (simp add: midpoint_of_def r)
  show ?thesis
    unfolding s m by (auto simp: getNodes_def new_KBucket_def k r)
qed

text \<open>
  Claim C3, at the bucket \<open>[0, 2^160]\<close> holding the node whose id is \<open>2^159\<close>. The
  midpoint is \<open>2^159\<close>, the id of the node. \<open>split\<close> tests \<open>midpoint.gt(id)\<close>, which is
  false for it, and puts the node into the upper bucket, whose range \<open>[2^159 + 1, 2^160]\<close>
  does not hold the id; the lower bucket \<open>[0, 2^159]\<close>, whose range does, stays empty.
\<close>

theorem KBucket_split_midpoint:
  "midpoint_of bucket0 = 2 ^ 159
   \<and> BN16 (node_id nodeM) = midpoint_of bucket0
   \<and> getNodes bucket0 = [nodeM]
   \<and> split 0 bucket0 = (new_KBucket 0 (2 ^ 159) 20 0,
        (new_KBucket (2 ^ 159 + 1) (2 ^ 160) 20 0)\<lparr>nodes := [(2 ^ 159, nodeM)]\<rparr>)
   \<and> getNodes (fst (split 0 bucket0)) = []
   \<and> getNodes (snd (split 0 bucket0)) = [nodeM]
   \<and> hasInRange nodeM (fst (split 0 bucket0)) = True
   \<and> hasInRange nodeM (snd (split 0 bucket0)) = False"
proof -
  have s: "split 0 bucket0 = (new_KBucket 0 (2 ^ 159) 20 0,
        (new_KBucket (2 ^ 159 + 1) (2 ^ 160) 20 0)\<lparr>nodes := [(2 ^ 159, nodeM)]\<rparr>)"
    by (simp add: bucket0_def nodeM_def routing_eval)
  have m: "midpoint_of bucket0 = 2 ^ 159"
    by (simp add: midpoint_of_def bucket0_def routing_eval)
  have i: "BN16 (node_id nodeM) = 2 ^ 159"
    by (simp add: BN16_def nodeM_def)
  have g: "getNodes bucket0 = [nodeM]"
    by (simp add: getNodes_def bucket0_def)
  have r: "hasInRange nodeM (new_KBucket 0 (2 ^ 159) 20 0) = True
      \<and> hasInRange nodeM ((new_KBucket (2 ^ 159 + 1) (2 ^ 160) 20 0)\<lparr>nodes := [(2 ^ 159, nodeM)]\<rparr>) = False"
    by (simp add: hasInRange_def new_KBucket_def i)
  show ?thesis
    unfolding s using m i g r by (simp add: getNodes_def new_KBucket_def)
qed

text \<open>
  Claim C2, on a table reached from the first bucket by two calls of \<open>addContact\<close>. The
  server \<open>nodeS\<close> has \<open>ksize = 1\<close>. \<open>addContact(nodeM)\<close> stores \<open>nodeM\<close>, whose id is
  \<open>2^159\<close>. \<open>addContact(nodeP)\<close> splits the first bucket and then its upper half. In
  the resulting table \<open>nodeM\<close> is stored in the second bucket, whose range
  \<open>[2^159 + 1, 3 * 2^158 + 1/2]\<close> does not hold its id, while \<open>getBucketFor\<close> points
  at the first bucket, so that \<open>removeContact(nodeM)\<close> changes nothing; and the id
  \<open>3 * 2^158 + 1\<close> of \<open>nodeG\<close> lies in the range of no bucket, between the second
  bucket's upper bound and the third bucket's lower bound \<open>3 * 2^158 + 3/2\<close>.
\<close>

theorem RoutingTable_ranges_reached:
  "addContact (Suc 0) 0 nodeM (new_RoutingTable 1 nodeS 0) = Some (Inr (table1, []))
   \<and> addContact (Suc (Suc (Suc 0))) 0 nodeP table1 = Some (Inr (table2, [nodeM]))
   \<and> map bucket_range (buckets table2)
        = [(0, 2 ^ 159), (2 ^ 159 + 1, 3 * 2 ^ 158 + 1 / 2), (3 * 2 ^ 158 + 3 / 2, 2 ^ 160)]
   \<and> map getNodes (buckets table2) = [[], [nodeM], []]
   \<and> hasInRange nodeM (buckets table2 ! 1) = False
   \<and> getBucketFor nodeM table2 = Some 0
   \<and> removeContact nodeM table2 = Inr table2
   \<and> filter (hasInRange nodeG) (buckets table2) = []"
proof -
  have a: "addContact (Suc 0) 0 nodeM (new_RoutingTable 1 nodeS 0) = Some (Inr (table1, []))"
    by (simp add: routing_eval table1_def nodeM_def)
  have b: "addContact (Suc (Suc (Suc 0))) 0 nodeP table1 = Some (Inr (table2, [nodeM]))"
    by (simp add: routing_eval table1_def table2_def nodeM_def nodeP_def nodeS_def depth_single)
  have c: "map bucket_range (buckets table2)
        = [(0, 2 ^ 159), (2 ^ 159 + 1, 3 * 2 ^ 158 + 1 / 2), (3 * 2 ^ 158 + 3 / 2, 2 ^ 160)]
      \<and> map getNodes (buckets table2) = [[], [nodeM], []]"
    by (simp add: table2_def new_KBucket_def getNodes_def)
  have d: "hasInRange nodeM (buckets table2 ! 1) = False
      \<and> getBucketFor nodeM table2 = Some 0
      \<and> removeContact nodeM table2 = Inr table2
      \<and> filter (hasInRange nodeG) (buckets table2) = []"
    by (simp add: routing_eval table2_def nodeM_def nodeG_def removeContact_def removeNode_def)
  from a b c d show ?thesis by (simp only: simp_thms)
qed

section \<open>KademliaProtocol: welcoming a new node\<close>

lemma untimed_fields:
  "bucket_range (untimed b) = bucket_range b" "getNodes (untimed b) = getNodes b"
  "nodes (untimed b) = nodes b"
  by (simp_all add: untimed_def getNodes_def)


lemma untimed_touch: "untimed (touchLastUpdated now b) = untimed b"
  by (simp add: untimed_def touchLastUpdated_def)


lemma getBucketFor_from_bound:
  "getBucketFor_from i bs n = Some j \<Longrightarrow> i \<le> j \<and> j < i + length bs"
proof (induction bs arbitrary: i)
  case Nil
  then show ?case by simp
next
  case (Cons b bs)
  show ?case
  proof (cases "snd (bucket_range b) \<ge> BN16 (node_id n)")
    case True
    then show ?thesis using Cons.prems by simp
  next
    case False
    then have "getBucketFor_from (i + 1) bs n = Some j" using Cons.prems by simp
    then show ?thesis using Cons.IH [of "i + 1"] by simp
  qed
qed

lemma getBucketFor_bound: "getBucketFor n t = Some j \<Longrightarrow> j < length (buckets t)"
  using getBucketFor_from_bound [of 0 "buckets t" n j] by (simp add: getBucketFor_def)


lemma traverse_untimed:
  "traverse c (map untimed l) (map untimed r) f = traverse c l r f"
proof (induction c l r f rule: traverse.induct)
  case (1 c l r f)
  show ?case
  proof (cases "c \<noteq> []")
    case True
    then show ?thesis
      using "1.IH"(1) by (subst traverse.simps, subst (2) traverse.simps) simp
  next
    case c: False
    show ?thesis
    proof (cases "f \<and> l \<noteq> []")
      case True
      then have "traverse (getNodes (last l)) (map untimed (butlast l)) (map untimed r) False
          = traverse (getNodes (last l)) (butlast l) r False"
        using "1.IH"(2) c by simp
      then show ?thesis
        using c True
        by (subst traverse.simps, subst (2) traverse.simps) (simp add: last_map map_butlast untimed_fields)
    next
      case l: False
      show ?thesis
      proof (cases "r \<noteq> []")
        case True
        then have "traverse (getNodes (last r)) (map untimed l) (map untimed (butlast r)) True
            = traverse (getNodes (last r)) l (butlast r) True"
          using "1.IH"(3) c l by simp
        then show ?thesis
          using c l True
          by (subst traverse.simps, subst (2) traverse.simps) (auto simp: last_map map_butlast untimed_fields)
      next
        case False
        then show ?thesis
          using c l by (subst traverse.simps, subst (2) traverse.simps) auto
      qed
    qed
  qed
qed

lemma traverse_cong:
  assumes "map untimed l = map untimed l'" "map untimed r = map untimed r'"
  shows "traverse c l r f = traverse c l' r' f"
  using traverse_untimed [of c l r f] traverse_untimed [of c l' r' f] assms by simp



lemma contacts_eq_sym: "contacts_eq a b \<Longrightarrow> contacts_eq b a"
  by (simp add: contacts_eq_def)

lemma map_untimed_touch: "map untimed (bs[i := touchLastUpdated now (bs ! i)]) = map untimed bs"
proof (cases "i < length bs")
  case True
  have "map untimed (bs[i := touchLastUpdated now (bs ! i)]) = (map untimed bs)[i := untimed (bs ! i)]"
    by (simp add: map_update untimed_touch)
  also have "\<dots> = (map untimed bs)[i := map untimed bs ! i]"
    using True by simp
  also have "\<dots> = map untimed bs"
    by (rule list_update_id)
  finally show ?thesis .
next
  case False
  then have "bs[i := touchLastUpdated now (bs ! i)] = bs"
    by (intro list_update_beyond) simp
  then show ?thesis by simp
qed



lemma findNeighbors_list:
  "findNeighbors cmp0 now n k ex t =
     (case getBucketFor n t of
        None \<Rightarrow> Inl TypeError
      | Some index \<Rightarrow>
          Inr (map snd (nsmallest
                 (collect cmp0 n (case k of None \<Rightarrow> rt_ksize t | Some j \<Rightarrow> if j = 0 then rt_ksize t else j) ex []
                    (traverse (getNodes (buckets t ! index)) (take index (buckets t))
                       (drop (index + 1) (buckets t)) True))
                 (case k of None \<Rightarrow> rt_ksize t | Some j \<Rightarrow> if j = 0 then rt_ksize t else j)),
               t\<lparr>buckets := (buckets t)[index := touchLastUpdated now (buckets t ! index)]\<rparr>))"
proof (cases "getBucketFor n t")
  case None
  then show ?thesis by (simp add: findNeighbors_def)
next
  case (Some index)
  then have i: "index < length (buckets t)" by (rule getBucketFor_bound)
  let ?bs = "(buckets t)[index := touchLastUpdated now (buckets t ! index)]"
  have m: "map untimed ?bs = map untimed (buckets t)"
    by (rule map_untimed_touch)
  have "traverse (getNodes (?bs ! index)) (take index ?bs) (drop (index + 1) ?bs) True
      = traverse (getNodes (buckets t ! index)) (take index (buckets t)) (drop (index + 1) (buckets t)) True"
  proof -
    have g: "getNodes (?bs ! index) = getNodes (buckets t ! index)"
      using i by (simp add: getNodes_def touchLastUpdated_def)
    have tk: "map untimed (take index ?bs) = map untimed (take index (buckets t))"
      using m by (metis take_map)
    have dr: "map untimed (drop (index + 1) ?bs) = map untimed (drop (index + 1) (buckets t))"
      using m by (metis drop_map)
    show ?thesis unfolding g by (rule traverse_cong [OF tk dr])
  qed
  then show ?thesis using Some by (simp add: findNeighbors_def Let_def)
qed






















lemma sample_traverse: "traverse [nodeA, nodeB] [] [] True = [nodeB, nodeA]"
  by (simp add: traverse.simps)


lemma sample_bucket: "getBucketFor (new_Node 6) table3 = Some 0"
  by (simp add: getBucketFor_def table3_def new_KBucket_def new_Node_def BN16_def)

lemma sample_collect: "collect compare (new_Node 6) 20 None [] [nodeB, nodeA] = [(3, nodeA), (10, nodeB)]"
  by (simp add: heappush_def siftdown.simps compare_def distanceTo_def nodeA_def nodeB_def new_Node_def Let_def)







lemma sample_bucket1: "getBucketFor nodeP (router proto1) = Some 0"
  by (simp add: routing_eval proto1_def table1_def nodeP_def)


lemma sample_items1: "items 0 (storage proto1) = ([], storage proto1)"
  by (simp add: items_def cull_def iteritemsOlderThan_def tripleIterable_def proto1_def Let_def)

lemma sample_new1: "isNewNode nodeP (router proto1) = Inr True"
  unfolding isNewNode_def sample_bucket1
  by (simp add: KBucket_isNewNode_def Map_has_def proto1_def table1_def
        new_KBucket_def nodeP_def nodeM_def)




lemma table1_split: "addContact (Suc (Suc (Suc 0))) 0 nodeP table1 = Some (Inr (table2, [nodeM]))"
  by (simp add: routing_eval table1_def table2_def nodeM_def nodeP_def nodeS_def depth_single)

text \<open>
  On \<open>proto1\<close> the bucket of \<open>nodeP\<close> is split twice; the third call of
  \<open>addContact\<close> finds a full bucket that stays, and \<open>nodeP\<close> ends on its
  replacement queue.
\<close>

lemma welcomeIfNewNode_split_sample:
  "welcomeIfNewNode compare (\<lambda>s. 6) (Suc (Suc (Suc 0))) 0 nodeP proto1
     = Some (Inr ([], [nodeM], proto1\<lparr>router := table2\<rparr>))"
proof -
  have r: "router proto1 = table1" by (simp add: proto1_def)
  show ?thesis
    unfolding welcomeIfNewNode_def sample_new1 sample_items1
    by (simp add: r table1_split proto1_def del: addContact.simps)
qed

lemma table6_reached:
  "addContact (Suc 0) 0 nodeX (new_RoutingTable 1 nodeT 0)
     = Some (Inr (\<lparr>rt_node = nodeT, rt_ksize = 1,
          buckets = [(new_KBucket 0 (2 ^ 160) 1 0)\<lparr>nodes := [(2 ^ 159 + 7, nodeX)]\<rparr>]\<rparr>, []))
   \<and> addContact (Suc (Suc 0)) 0 nodeA \<lparr>rt_node = nodeT, rt_ksize = 1,
          buckets = [(new_KBucket 0 (2 ^ 160) 1 0)\<lparr>nodes := [(2 ^ 159 + 7, nodeX)]\<rparr>]\<rparr>
     = Some (Inr (table6, []))"
  by (simp add: routing_eval table6_def nodeX_def nodeA_def nodeT_def depth_single)



section \<open>KademliaProtocol: refresh ids\<close>

lemmas refresh_eval = refreshID_def integerValue_def round_half_up_def toString16_def hex.simps hexdigit_def
      slice_last_def BIT_SPACE_def BIT_EMPTY_def floor_rat_numeral

lemma refreshID_length: "length (refreshID r rnd) = 40"
  by (simp add: refreshID_def slice_last_def BIT_SPACE_def BIT_EMPTY_def Let_def split: prod.splits)

text \<open>
  Claim C8, at the lonely bucket \<open>[0, 2^159]\<close> and the draw \<open>0.5\<close>. The id is
  \<open>c000...0\<close>, the number \<open>3 * 2^158\<close>, above the bucket's upper bound \<open>2^159\<close>:
  the code adds the width of the range to the scaled draw, not its lower bound. On
  \<open>table2\<close>, an hour after its buckets were made, all three buckets are lonely and
  with the draw \<open>0.5\<close> for each the second and third ids, \<open>5fff...f\<close> and
  \<open>5fff...e\<close>, lie below the lower bounds of their buckets.
\<close>

theorem getRefreshIDs_outside_range:
  "refreshID (0, 2 ^ 159) (1 / 2) = ''c000000000000000000000000000000000000000''
   \<and> hex_value (refreshID (0, 2 ^ 159) (1 / 2)) = 3 * 2 ^ 158
   \<and> (rat_of_nat (hex_value (refreshID (0, 2 ^ 159) (1 / 2))) \<le> 2 ^ 159) = False
   \<and> map bucket_range (getLonelyBuckets 3600001 (router proto2))
        = [(0, 2 ^ 159), (2 ^ 159 + 1, 3 * 2 ^ 158 + 1 / 2), (3 * 2 ^ 158 + 3 / 2, 2 ^ 160)]
   \<and> getRefreshIDs 3600001 (\<lambda>i. 1 / 2) proto2
        = [''c000000000000000000000000000000000000000'',
           ''5fffffffffffffffffffffffffffffffffffffff'',
           ''5ffffffffffffffffffffffffffffffffffffffe'']"
proof -
  have a: "refreshID (0, 2 ^ 159) (1 / 2) = ''c000000000000000000000000000000000000000''"
    by (simp add: refresh_eval)
  have b: "refreshID (2 ^ 159 + 1, 3 * 2 ^ 158 + 1 / 2) (1 / 2) = ''5fffffffffffffffffffffffffffffffffffffff''"
    by (simp add: refresh_eval)
  have c: "refreshID (3 * 2 ^ 158 + 3 / 2, 2 ^ 160) (1 / 2) = ''5ffffffffffffffffffffffffffffffffffffffe''"
    by (simp add: refresh_eval)
  have v: "hex_value ''c000000000000000000000000000000000000000'' = 3 * 2 ^ 158"
    by (simp add: hex_value_def hexval_def)
  have l: "getLonelyBuckets 3600001 (router proto2) = buckets table2"
    by (simp add: getLonelyBuckets_def proto2_def table2_def new_KBucket_def)
  have r: "map bucket_range (buckets table2)
        = [(0, 2 ^ 159), (2 ^ 159 + 1, 3 * 2 ^ 158 + 1 / 2), (3 * 2 ^ 158 + 3 / 2, 2 ^ 160)]"
    by (simp add: table2_def new_KBucket_def)
  have z: "zip [0..<length (buckets table2)] (buckets table2)
        = [(0, buckets table2 ! 0), (1, buckets table2 ! 1), (2, buckets table2 ! 2)]"
    by (simp add: table2_def upt_rec)
  have g: "getRefreshIDs 3600001 (\<lambda>i. 1 / 2) proto2
        = [refreshID (0, 2 ^ 159) (1 / 2), refreshID (2 ^ 159 + 1, 3 * 2 ^ 158 + 1 / 2) (1 / 2),
           refreshID (3 * 2 ^ 158 + 3 / 2, 2 ^ 160) (1 / 2)]"
    unfolding getRefreshIDs_def l Let_def z by (simp add: table2_def new_KBucket_def)
  show ?thesis
    unfolding g l r a b c v by simp
qed

section \<open>RPCProtocol: one completion per call\<close>

lemma completions_append: "completions i (s\<lparr>resolved := resolved s @ [(f, v)]\<rparr>)
    = completions i s @ (if f = i then [v] else [])"
  by (simp add: completions_def)

lemma retired_step:
  assumes "retired i s" "step e s = Inr s1"
  shows "retired i s1 \<and> completions i s1 = completions i s"
proof (cases e)
  case (Rpc len m)
  then show ?thesis
    using assms by (fastforce simp: retired_def rpc_def completions_def Let_def split: if_splits)
next
  case (Sent j)
  then show ?thesis
    using assms by (fastforce simp: retired_def send_callback_def completions_def split: option.splits if_splits)
next
  case (Response m d)
  show ?thesis
  proof (cases "outstanding s m")
    case None
    then show ?thesis using assms Response by (simp add: acceptResponse_def)
  next
    case (Some ft)
    obtain f t where ft: "ft = (f, t)" by (cases ft)
    have "f \<noteq> i" using assms(1) Some ft by (auto simp: retired_def)
    then show ?thesis
      using assms Response Some ft
      by (fastforce simp: retired_def acceptResponse_def completions_def split: if_splits)
  qed
next
  case (Fire j)
  show ?thesis
  proof (cases "timers s j")
    case None
    then show ?thesis using assms Fire by simp
  next
    case (Some m)
    show ?thesis
    proof (cases "outstanding s m")
      case None
      then show ?thesis using assms Fire Some by (simp add: timeout_def)
    next
      case o: (Some ft)
      obtain f t where ft: "ft = (f, t)" by (cases ft)
      have "f \<noteq> i" using assms(1) o ft by (auto simp: retired_def)
      then show ?thesis
        using assms Fire Some o ft
        by (fastforce simp: retired_def timeout_def completions_def split: if_splits)
    qed
  qed
qed

lemma retired_run:
  assumes "retired i s" "run es s = Inr s2"
  shows "retired i s2 \<and> completions i s2 = completions i s"
  using assms
proof (induction es arbitrary: s)
  case Nil
  then show ?case by simp
next
  case (Cons e es)
  then obtain s1 where s1: "step e s = Inr s1" "run es s1 = Inr s2"
    by (cases "step e s") auto
  have "retired i s1 \<and> completions i s1 = completions i s"
    using retired_step [OF Cons.prems(1) s1(1)] .
  then show ?case using Cons.IH [of s1] s1(2) by simp
qed

lemma pending_step:
  assumes "pending i m s" "quiet i m e" "step e s = Inr s1"
  shows "pending i m s1"
proof (cases e)
  case (Rpc len m')
  then show ?thesis
    using assms by (fastforce simp: pending_def rpc_def completions_def Let_def split: if_splits)
next
  case (Sent j)
  show ?thesis
  proof (cases "sending s j")
    case None
    then show ?thesis using assms Sent by (simp add: send_callback_def)
  next
    case (Some m')
    have j: "j \<noteq> i" using assms(1) Some by (auto simp: pending_def)
    then have "m' \<noteq> m" using assms(1) Some by (auto simp: pending_def)
    then show ?thesis
      using assms Sent Some j
      by (fastforce simp: pending_def send_callback_def completions_def split: if_splits)
  qed
next
  case (Response m' d)
  show ?thesis
  proof (cases "outstanding s m'")
    case None
    then show ?thesis using assms Response by (simp add: acceptResponse_def)
  next
    case (Some ft)
    obtain f t where ft: "ft = (f, t)" by (cases ft)
    have mm: "m' \<noteq> m" using assms(2) Response by simp
    then have "f \<noteq> i \<and> t \<noteq> i" using assms(1) Some ft by (auto simp: pending_def)
    then show ?thesis
      using assms(1,3) Response Some ft mm
      by (fastforce simp: pending_def acceptResponse_def completions_def split: if_splits)
  qed
next
  case (Fire j)
  have ji: "j \<noteq> i" using assms(2) Fire by simp
  show ?thesis
  proof (cases "timers s j")
    case None
    then show ?thesis using assms Fire by simp
  next
    case (Some m')
    have mm: "m' \<noteq> m" using assms(1) Some ji by (auto simp: pending_def)
    show ?thesis
    proof (cases "outstanding s m'")
      case None
      then show ?thesis using assms Fire Some by (simp add: timeout_def)
    next
      case o: (Some ft)
      obtain f t where ft: "ft = (f, t)" by (cases ft)
      have "f \<noteq> i \<and> t \<noteq> i" using assms(1) o ft mm by (auto simp: pending_def)
      then show ?thesis
        using assms(1,3) Fire Some o ft mm ji
        by (fastforce simp: pending_def timeout_def completions_def split: if_splits)
    qed
  qed
qed

lemma pending_run:
  assumes "pending i m s" "\<forall>e\<in>set es. quiet i m e" "run es s = Inr s2"
  shows "pending i m s2"
  using assms
proof (induction es arbitrary: s)
  case Nil
  then show ?case by simp
next
  case (Cons e es)
  then obtain s1 where s1: "step e s = Inr s1" "run es s1 = Inr s2"
    by (cases "step e s") auto
  have "pending i m s1"
    using pending_step [OF Cons.prems(1) _ s1(1)] Cons.prems(2) by simp
  then show ?case using Cons.IH [of s1] s1(2) Cons.prems(2) by simp
qed

lemma gone_step:
  assumes "gone m s" "\<not> redraws m e" "step e s = Inr s1"
  shows "gone m s1"
proof (cases e)
  case (Rpc len m')
  then show ?thesis
    using assms by (fastforce simp: gone_def rpc_def Let_def split: if_splits)
next
  case (Sent j)
  then show ?thesis
    using assms by (fastforce simp: gone_def send_callback_def split: option.splits if_splits)
next
  case (Response m' d)
  then show ?thesis
    using assms by (fastforce simp: gone_def acceptResponse_def split: option.splits if_splits)
next
  case (Fire j)
  then show ?thesis
    using assms by (fastforce simp: gone_def timeout_def split: option.splits if_splits)
qed

lemma gone_run:
  assumes "gone m s" "\<forall>e\<in>set es. \<not> redraws m e" "run es s = Inr s2"
  shows "gone m s2"
  using assms
proof (induction es arbitrary: s)
  case Nil
  then show ?case by simp
next
  case (Cons e es)
  then obtain s1 where s1: "step e s = Inr s1" "run es s1 = Inr s2"
    by (cases "step e s") auto
  have "gone m s1"
    using gone_step [OF Cons.prems(1) _ s1(1)] Cons.prems(2) by simp
  then show ?case using Cons.IH [of s1] s1(2) Cons.prems(2) by simp
qed

lemma gone_ignored: "gone m s \<Longrightarrow> step (Response m d) s = Inr s"
  by (simp add: gone_def acceptResponse_def)

lemma run_append:
  "run (es @ es') s = (case run es s of Inl x \<Rightarrow> Inl x | Inr s1 \<Rightarrow> run es' s1)"
  by (induction es arbitrary: s) (auto split: sum.splits)

lemma registered:
  assumes "ids_below s0" "unused m s0" "len \<le> 512"
  shows "\<exists>s. run [Rpc len m, Sent (next_id s0)] s0 = Inr s \<and> pending (next_id s0) m s"
proof -
  let ?i = "next_id s0"
  let ?s = "s0\<lparr>timers := (timers s0)(?i \<mapsto> m), sending := (sending s0)(?i := None),
               next_id := ?i + 1, outstanding := (outstanding s0)(m \<mapsto> (?i, ?i))\<rparr>"
  have r: "run [Rpc len m, Sent ?i] s0 = Inr ?s"
    using assms(3) by (simp add: rpc_def send_callback_def Let_def)
  have t: "\<forall>j. j \<noteq> ?i \<longrightarrow> timers s0 j \<noteq> Some m"
    using assms(2) by (auto simp: unused_def ran_def)
  have sd: "\<forall>j. j \<noteq> ?i \<longrightarrow> sending s0 j \<noteq> Some m"
    using assms(2) by (auto simp: unused_def ran_def)
  have o: "\<forall>m' f t. outstanding s0 m' = Some (f, t) \<longrightarrow> f \<noteq> ?i \<and> t \<noteq> ?i"
    using assms(1) by (fastforce simp: ids_below_def)
  have c: "completions ?i s0 = []"
    using assms(1) by (auto simp: ids_below_def completions_def filter_empty_conv)
  have "pending ?i m ?s"
    unfolding pending_def using t sd o c by (auto simp: completions_def)
  then show ?thesis using r by blast
qed

lemma timeout_pending:
  assumes "pending i m s"
  shows "\<exists>s1. step (Fire i) s = Inr s1 \<and> completions i s1 = [(False, None)]
            \<and> outstanding s1 m = None \<and> retired i s1 \<and> gone m s1"
proof -
  let ?s1 = "s\<lparr>timers := (timers s)(i := None), resolved := resolved s @ [(i, False, None)],
               outstanding := (outstanding s)(m := None)\<rparr>"
  have o: "outstanding s m = Some (i, i)" and t: "timers s i = Some m" and c0: "completions i s = []"
    and n: "i < next_id s" and sd: "sending s i = None"
    using assms unfolding pending_def by blast+
  have oth: "\<And>m' f t. m' \<noteq> m \<Longrightarrow> outstanding s m' = Some (f, t) \<Longrightarrow> f \<noteq> i"
    and snd: "\<And>j. j \<noteq> i \<Longrightarrow> sending s j \<noteq> Some m"
    using assms unfolding pending_def by blast+
  have f: "step (Fire i) s = Inr ?s1"
    using o t by (simp add: timeout_def)
  have c: "completions i ?s1 = [(False, None)]"
    using c0 by (simp add: completions_def)
  have r: "retired i ?s1"
    unfolding retired_def using n sd oth by (auto split: if_splits)
  have g: "gone m ?s1"
  proof -
    have "sending s j \<noteq> Some m" for j
      using sd snd [of j] by (cases "j = i") simp_all
    then show ?thesis by (simp add: gone_def)
  qed
  from f c r g show ?thesis by auto
qed

lemma response_pending:
  assumes "pending i m s"
  shows "\<exists>s1. step (Response m d) s = Inr s1 \<and> completions i s1 = [(True, Some d)]
            \<and> outstanding s1 m = None \<and> timers s1 i = None \<and> retired i s1 \<and> gone m s1"
proof -
  let ?s1 = "s\<lparr>timers := (timers s)(i := None), resolved := resolved s @ [(i, True, Some d)],
               outstanding := (outstanding s)(m := None)\<rparr>"
  have o: "outstanding s m = Some (i, i)" and t: "timers s i = Some m" and c0: "completions i s = []"
    and n: "i < next_id s" and sd: "sending s i = None"
    using assms unfolding pending_def by blast+
  have oth: "\<And>m' f t. m' \<noteq> m \<Longrightarrow> outstanding s m' = Some (f, t) \<Longrightarrow> f \<noteq> i"
    and snd: "\<And>j. j \<noteq> i \<Longrightarrow> sending s j \<noteq> Some m"
    using assms unfolding pending_def by blast+
  have f: "step (Response m d) s = Inr ?s1"
    using o by (simp add: acceptResponse_def)
  have c: "completions i ?s1 = [(True, Some d)]"
    using c0 by (simp add: completions_def)
  have r: "retired i ?s1"
    unfolding retired_def using n sd oth by (auto split: if_splits)
  have g: "gone m ?s1"
  proof -
    have "sending s j \<noteq> Some m" for j
      using sd snd [of j] by (cases "j = i") simp_all
    then show ?thesis by (simp add: gone_def)
  qed
  from f c r g show ?thesis by auto
qed

lemma Map_has_set_iff: "Map_has (Map_set k v m) k' \<longleftrightarrow> k' = k \<or> Map_has m k'"
  by (induction m) (auto simp: Map_has_def)

lemma removeNode_absent:
  assumes "replacementNodes b = [] \<or> node_id (last (replacementNodes b)) \<noteq> node_id n"
  shows "\<not> Map_has (nodes (removeNode n b)) (node_id n)"
proof (cases "Map_has (nodes b) (node_id n)")
  case False
  then show ?thesis by (simp add: removeNode_def)
next
  case True
  have d: "\<not> Map_has (Map_delete (node_id n) (nodes b)) (node_id n)"
    by (auto simp: Map_has_def Map_delete_def)
  show ?thesis
  proof (cases "replacementNodes b = []")
    case e: True
    then show ?thesis using True d by (simp add: removeNode_def)
  next
    case e: False
    then have "node_id (last (replacementNodes b)) \<noteq> node_id n" using assms by simp
    then show ?thesis
      using True d e by (auto simp: removeNode_def Let_def Map_has_set_iff)
  qed
qed

lemma removeContact_bucket:
  assumes "getBucketFor n t = Some index"
  shows "\<exists>r. removeContact n t = Inr r
           \<and> buckets r = (buckets t)[index := removeNode n (buckets t ! index)]
           \<and> buckets r ! index = removeNode n (buckets t ! index)"
proof -
  have "index < length (buckets t)" using assms by (rule getBucketFor_bound)
  then show ?thesis using assms by (simp add: removeContact_def)
qed

text \<open>
  Claim C5. A call of \<open>rpc\<close> with a message id not in use, once the callback of
  \<open>transport.send\<close> has registered its pending entry, stays pending through any events
  that are neither a response for it nor its timer. When its timer then fires, the
  promise is resolved with \<open>(false, null)\<close> and the entry is removed; a response for the
  message id after that finds no entry and changes nothing, now and after any further
  events that do not draw the message id again; and whatever happens later, the promise
  has been resolved exactly once. When the response comes first, the promise is resolved
  once with \<open>(true, data)\<close>, the timer is cleared and cannot fire. The wrappers
  \<open>callFindNode\<close>, \<open>callFindValue\<close>, \<open>callPing\<close> and \<open>callStore\<close> pass the result to
  \<open>handleCallResponse\<close>, which for \<open>(false, null)\<close> runs \<open>removeContact(node)\<close>:
  the id of the node is deleted from the bucket that \<open>getBucketFor\<close> gives, and is
  absent from it afterwards unless the replacement promoted in its place has the same id.
  \<open>bootstrap_node\<close> takes the result of its \<open>ping\<close> itself: for \<open>(false, null)\<close>
  it returns \<open>null\<close> and the routing table stays as it is.
\<close>

theorem RPC_timeout_once:
  assumes "ids_below s0" and "unused m s0" and "len \<le> 512"
    and "\<forall>e\<in>set es. quiet (next_id s0) m e"
    and "run ([Rpc len m, Sent (next_id s0)] @ es) s0 = Inr s"
  shows "pending (next_id s0) m s
     \<and> (\<exists>s1. step (Fire (next_id s0)) s = Inr s1
           \<and> completions (next_id s0) s1 = [(False, None)]
           \<and> outstanding s1 m = None
           \<and> step (Response m d) s1 = Inr s1
           \<and> (\<forall>es' s2. run es' s1 = Inr s2 \<longrightarrow> completions (next_id s0) s2 = [(False, None)])
           \<and> (\<forall>es' s2. (\<forall>e\<in>set es'. \<not> redraws m e) \<longrightarrow> run es' s1 = Inr s2
                 \<longrightarrow> step (Response m d) s2 = Inr s2))
     \<and> (\<exists>s1. step (Response m d) s = Inr s1
           \<and> completions (next_id s0) s1 = [(True, Some d)]
           \<and> outstanding s1 m = None
           \<and> step (Fire (next_id s0)) s1 = Inr s1
           \<and> (\<forall>es' s2. run es' s1 = Inr s2 \<longrightarrow> completions (next_id s0) s2 = [(True, Some d)]))
     \<and> handleCallResponse cmp0 digest fuel now (False, None :: 'd option) n p
         = (case removeContact n (router p) of
              Inl e \<Rightarrow> Some (Inl e)
            | Inr r \<Rightarrow> Some (Inr ([], [], p\<lparr>router := r\<rparr>)))
     \<and> (\<forall>index. getBucketFor n (router p) = Some index \<longrightarrow>
           (\<exists>r. removeContact n (router p) = Inr r
              \<and> buckets r = (buckets (router p))[index := removeNode n (buckets (router p) ! index)]
              \<and> (replacementNodes (buckets (router p) ! index) = []
                   \<or> node_id (last (replacementNodes (buckets (router p) ! index))) \<noteq> node_id n
                  \<longrightarrow> \<not> Map_has (nodes (buckets r ! index)) (node_id n))))
     \<and> bootstrap_node (False, None) addr p = Inr (None, p)"
proof -
  let ?i = "next_id s0"
  obtain sr where sr: "run [Rpc len m, Sent ?i] s0 = Inr sr" and pr: "pending ?i m sr"
    using registered [OF assms(1,2,3)] by blast
  have "run es sr = Inr s"
    using assms(5) sr by (simp only: run_append sum.case)
  then have p: "pending ?i m s"
    using pending_run [OF pr assms(4)] by blast
  obtain s1 where t: "step (Fire ?i) s = Inr s1" "completions ?i s1 = [(False, None)]"
      "outstanding s1 m = None" "retired ?i s1" "gone m s1"
    using timeout_pending [OF p] by blast
  have t1: "step (Response m d) s1 = Inr s1" using t(5) by (rule gone_ignored)
  have t2: "\<forall>es' s2. run es' s1 = Inr s2 \<longrightarrow> completions ?i s2 = [(False, None)]"
    using retired_run [OF t(4)] t(2) by metis
  have t3: "\<forall>es' s2. (\<forall>e\<in>set es'. \<not> redraws m e) \<longrightarrow> run es' s1 = Inr s2
                 \<longrightarrow> step (Response m d) s2 = Inr s2"
    using gone_run [OF t(5)] gone_ignored by metis
  obtain s1' where r: "step (Response m d) s = Inr s1'" "completions ?i s1' = [(True, Some d)]"
      "outstanding s1' m = None" "timers s1' ?i = None" "retired ?i s1'"
    using response_pending [OF p, of d] by blast
  have r1: "step (Fire ?i) s1' = Inr s1'" using r(4) by simp
  have r2: "\<forall>es' s2. run es' s1' = Inr s2 \<longrightarrow> completions ?i s2 = [(True, Some d)]"
    using retired_run [OF r(5)] r(2) by metis
  have h: "handleCallResponse cmp0 digest fuel now (False, None :: 'd option) n p
         = (case removeContact n (router p) of
              Inl e \<Rightarrow> Some (Inl e)
            | Inr r \<Rightarrow> Some (Inr ([], [], p\<lparr>router := r\<rparr>)))"
    by (simp add: handleCallResponse_def)
  have c: "\<exists>r. removeContact n (router p) = Inr r
              \<and> buckets r = (buckets (router p))[index := removeNode n (buckets (router p) ! index)]
              \<and> (replacementNodes (buckets (router p) ! index) = []
                   \<or> node_id (last (replacementNodes (buckets (router p) ! index))) \<noteq> node_id n
                  \<longrightarrow> \<not> Map_has (nodes (buckets r ! index)) (node_id n))"
    if g: "getBucketFor n (router p) = Some index" for index
    using removeContact_bucket [OF g] removeNode_absent [of "buckets (router p) ! index" n] by metis
  have b: "bootstrap_node (False, None) addr p = Inr (None, p)"
    by (simp add: bootstrap_node_def)
  show ?thesis
    using p t(1,2,3) t1 t2 t3 r(1,2,3) r1 r2 h c b by blast
qed

theorem RPC_timeout_once_witness:
  "ids_below rpc0 \<and> unused ''m1'' rpc0 \<and> (100::nat) \<le> 512
   \<and> quiet (next_id rpc0) ''m1'' (Rpc 50 ''m2'' :: nat event)
   \<and> quiet (next_id rpc0) ''m1'' (Sent 1 :: nat event)
   \<and> quiet (next_id rpc0) ''m1'' (Response ''m2'' (7::nat))
   \<and> (\<exists>s s1. run ([Rpc 100 ''m1'', Sent (next_id rpc0)] @ [Rpc 50 ''m2'', Sent 1, Response ''m2'' 7]) rpc0 = Inr s
         \<and> pending (next_id rpc0) ''m1'' s
         \<and> step (Fire (next_id rpc0)) s = Inr s1
         \<and> completions (next_id rpc0) s1 = [(False, None)]
         \<and> outstanding s1 ''m1'' = None
         \<and> step (Response ''m1'' 9) s1 = Inr s1)
   \<and> getBucketFor nodeA (router proto3) = Some 0
   \<and> replacementNodes (buckets (router proto3) ! 0) = []
   \<and> (\<exists>r. handleCallResponse compare (\<lambda>s. 6) 1 10 (False, None :: nat option) nodeA proto3
             = Some (Inr ([], [], proto3\<lparr>router := r\<rparr>))
         \<and> \<not> Map_has (nodes (buckets r ! 0)) (node_id nodeA))"
proof -
  let ?es = "[Rpc 50 ''m2'', Sent 1, Response ''m2'' (7::nat)]"
  have a: "ids_below rpc0" by (simp add: rpc0_def new_RPCProtocol_def ids_below_def)
  have b: "unused ''m1'' rpc0" by (simp add: rpc0_def new_RPCProtocol_def unused_def)
  have q: "\<forall>e\<in>set ?es. quiet (next_id rpc0) ''m1'' e" by simp
  have "case run ([Rpc 100 ''m1'', Sent (next_id rpc0)] @ ?es) rpc0 of Inl x \<Rightarrow> False | Inr s \<Rightarrow> True"
    by (simp add: rpc0_def new_RPCProtocol_def rpc_def send_callback_def acceptResponse_def Let_def)
  then obtain s where s: "run ([Rpc 100 ''m1'', Sent (next_id rpc0)] @ ?es) rpc0 = Inr s"
    by (cases "run ([Rpc 100 ''m1'', Sent (next_id rpc0)] @ ?es) rpc0") auto
  have l: "(100::nat) \<le> 512" by simp
  have g: "getBucketFor nodeA (router proto3) = Some 0"
    by (simp add: getBucketFor_def proto3_def table3_def new_KBucket_def BN16_def nodeA_def)
  have e: "replacementNodes (buckets (router proto3) ! 0) = []"
    by (simp add: proto3_def table3_def new_KBucket_def)
  note T = RPC_timeout_once [OF a b l q s, of 9 compare "\<lambda>s. 6" 1 10 nodeA proto3 "(''10.0.0.1'', 13001)"]
  have p: "pending (next_id rpc0) ''m1'' s"
    using T by (rule conjunct1)
  obtain s1 where f: "step (Fire (next_id rpc0)) s = Inr s1"
      "completions (next_id rpc0) s1 = [(False, None)]"
      "outstanding s1 ''m1'' = None"
      "step (Response ''m1'' 9) s1 = Inr s1"
    using T [THEN conjunct2, THEN conjunct1] by blast
  have h: "handleCallResponse compare (\<lambda>s. 6) 1 10 (False, None :: nat option) nodeA proto3
         = (case removeContact nodeA (router proto3) of
              Inl e \<Rightarrow> Some (Inl e)
            | Inr r \<Rightarrow> Some (Inr ([], [], proto3\<lparr>router := r\<rparr>)))"
    using T [THEN conjunct2, THEN conjunct2, THEN conjunct2] by (rule conjunct1)
  obtain r where r: "removeContact nodeA (router proto3) = Inr r"
    and m: "replacementNodes (buckets (router proto3) ! 0) = []
              \<or> node_id (last (replacementNodes (buckets (router proto3) ! 0))) \<noteq> node_id nodeA
            \<longrightarrow> \<not> Map_has (nodes (buckets r ! 0)) (node_id nodeA)"
    using T [THEN conjunct2, THEN conjunct2, THEN conjunct2, THEN conjunct2, THEN conjunct1, THEN spec, THEN mp, OF g]
    by blast
  have 1: "\<exists>s1. pending (next_id rpc0) ''m1'' s
         \<and> step (Fire (next_id rpc0)) s = Inr s1
         \<and> completions (next_id rpc0) s1 = [(False, None)]
         \<and> outstanding s1 ''m1'' = None
         \<and> step (Response ''m1'' 9) s1 = Inr s1"
    using p f by (intro exI [of _ s1] conjI)
  have n: "\<not> Map_has (nodes (buckets r ! 0)) (node_id nodeA)"
    using m e by (rule mp [OF _ disjI1])
  have "handleCallResponse compare (\<lambda>s. 6) 1 10 (False, None :: nat option) nodeA proto3
             = Some (Inr ([], [], proto3\<lparr>router := r\<rparr>))"
    unfolding h r by simp
  then have 2: "\<exists>r. handleCallResponse compare (\<lambda>s. 6) 1 10 (False, None :: nat option) nodeA proto3
             = Some (Inr ([], [], proto3\<lparr>router := r\<rparr>))
         \<and> \<not> Map_has (nodes (buckets r ! 0)) (node_id nodeA)"
    using n by (intro exI [of _ r] conjI)
  show ?thesis
    using a b q s 1 2 g e by auto
qed

text \<open>
  On \<open>table2\<close> the contact \<open>nodeM\<close> sits in the second bucket while
  \<open>getBucketFor\<close> gives the first one for its id (the midpoint test of \<open>split\<close>):
  \<open>handleCallResponse\<close> with \<open>(false, null)\<close> runs \<open>removeContact(nodeM)\<close> on the
  first bucket and the table stays as it is.
\<close>

lemma handleCallResponse_misplaced:
  "getNodes (buckets table2 ! 1) = [nodeM]
   \<and> handleCallResponse compare (\<lambda>s. 6) (Suc 0) 0 (False, None :: nat option) nodeM proto2
        = Some (Inr ([], [], proto2))"
  by (simp add: handleCallResponse_def removeContact_def removeNode_def getBucketFor_def getNodes_def
      Map_has_def proto2_def table2_def new_KBucket_def BN16_def nodeM_def)

text \<open>
  Claim C5 as stated, at a call that does not go through \<open>handleCallResponse\<close>: the
  \<open>ping\<close> that \<open>bootstrap_node\<close> sends to the address of \<open>nodeA\<close>, a contact of
  the table, gets no response. Its timer fires, the promise is resolved with
  \<open>(false, null)\<close> and the pending entry is removed; \<open>bootstrap_node\<close> returns
  \<open>null\<close>, and the contact is still in the routing table.
\<close>

theorem bootstrap_node_keeps_contact:
  "ip nodeA = Some ''10.0.0.1'' \<and> port nodeA = Some 13001
   \<and> stored_nodes (router proto3) = [nodeA, nodeB]
   \<and> run [Rpc 100 ''m1'', Sent 0, Fire 0] (new_RPCProtocol :: ident RPCProtocol)
        = Inr \<lparr>outstanding = Map.empty, timers = Map.empty, sending = Map.empty,
               resolved = [(0, False, None)], next_id = 1\<rparr>
   \<and> bootstrap_node (False, None) (''10.0.0.1'', 13001) proto3 = Inr (None, proto3)"
  by (simp add: bootstrap_node_def nodeA_def stored_nodes_def getNodes_def proto3_def table3_def new_KBucket_def
      new_RPCProtocol_def rpc_def send_callback_def timeout_def)

section \<open>Server: what set_digest returns\<close>

lemma dkey6_ident: "key_ident dkey6 = 6"
  by (simp add: key_ident_def dkey6_def hex_value_def hexval_def)

lemma table4_bucket: "getBucketFor (new_Node 6) table4 = Some 0"
  by (simp add: getBucketFor_def table4_def new_KBucket_def new_Node_def BN16_def)

lemma table4_collect: "collect compare (new_Node 6) 20 None [] [nodeA] = [(3, nodeA)]"
  by (simp add: heappush_def siftdown.simps compare_def distanceTo_def nodeA_def new_Node_def Let_def)

lemma proto4_neighbors: "findNeighbors compare 0 (new_Node 6) None None (router proto4)
    = Inr ([nodeA], table4\<lparr>buckets := (buckets table4)[0 := touchLastUpdated 0 (buckets table4 ! 0)]\<rparr>)"
  unfolding findNeighbors_list proto4_def
  by (simp add: table4_bucket del: collect.simps) (simp add: table4_def new_KBucket_def getNodes_def traverse.simps table4_collect nsmallest_def del: collect.simps)

lemma crawl_silent: "NodeSpiderCrawl_find (Suc 0) net_silent (new_SpiderCrawl (new_Node 6) [nodeA] 20 3) = Some []"
  by (simp add: new_SpiderCrawl_def new_NodeHeap_def has_def heappush_def siftdown.simps compare_def
      distanceTo_def nodeA_def new_Node_def getIDs_def iterate_def nsmallest_def getUncontacted_def
      markContacted_def net_silent_def remove_def allBeenContacted_def Let_def)

lemma proto4_ksize: "rt_ksize (router proto4) = 20"
  by (simp add: proto4_def table4_def)

lemma set_digest_silent: "set_digest compare (Suc 0) 0 3 net_silent stores dkey6 v proto4 = Some (Pending, storage proto4)"
  unfolding set_digest_def dkey6_ident Let_def proto4_neighbors proto4_ksize
  by (simp add: crawl_silent proto4_def table4_def closer_than_biggest_def del: NodeSpiderCrawl_find.simps)

lemma proto5_neighbors: "findNeighbors compare 0 (new_Node 6) None None (router proto5)
    = Inr ([nodeA, nodeB], table3\<lparr>buckets := (buckets table3)[0 := touchLastUpdated 0 (buckets table3 ! 0)]\<rparr>)"
  unfolding findNeighbors_list proto5_def
  by (simp add: sample_bucket del: collect.simps)
     (simp add: table3_def new_KBucket_def getNodes_def sample_traverse sample_collect nsmallest_def del: collect.simps)

lemma crawl_alive: "NodeSpiderCrawl_find (Suc 0) net_alive (new_SpiderCrawl (new_Node 6) [nodeA, nodeB] 20 3)
    = Some [nodeA, nodeB]"
  by (simp add: new_SpiderCrawl_def new_NodeHeap_def has_def heappush_def siftdown.simps compare_def
      distanceTo_def nodeA_def nodeB_def new_Node_def getIDs_def iterate_def nsmallest_def getUncontacted_def
      markContacted_def net_alive_def remove_def allBeenContacted_def Let_def)

lemma proto5_ksize: "rt_ksize (router proto5) = 20"
  by (simp add: proto5_def table3_def)

lemma set_digest_late: "set_digest compare (Suc 0) 0 3 net_alive stores_late dkey6 (9::nat) proto5
    = Some (Resolved (StoreResult (False, None)), \<lparr>entries = [(dkey6, (0, 9))], ttl = 20000\<rparr>)"
  unfolding set_digest_def dkey6_ident Let_def proto5_neighbors proto5_ksize
  apply (simp add: crawl_alive del: NodeSpiderCrawl_find.simps)
  apply (simp add: proto5_def table3_def closer_than_biggest_def stores_late_def distanceTo_def
      nodeA_def nodeB_def nodeT_def new_Node_def IStorage_set_def Map_has_def cull_def
      iteritemsOlderThan_def tripleIterable_def)
  done

text \<open>The first half of the claim: with no neighbours \<open>set_digest\<close> returns \<open>false\<close>.\<close>

lemma set_digest_no_neighbors:
  "findNeighbors cmp0 now (new_Node (key_ident dkey)) None None (router p) = Inr ([], r1) \<Longrightarrow>
   set_digest cmp0 fuel now a net stores dkey val p = Some (Resolved JSFalse, storage p)"
  by (simp add: set_digest_def)

text \<open>
  Claim C1, at two inputs. On \<open>proto4\<close> the only contact \<open>nodeA\<close> does not answer:
  the table yields a neighbour, the crawl removes it and returns no candidates, no store
  is issued, and \<open>any\<close> runs \<open>Promise.race\<close> on an empty array: the promise of
  \<open>set_digest\<close> stays pending for ever. On \<open>proto5\<close> the stores go to \<open>nodeA\<close> and
  \<open>nodeB\<close>; the store on \<open>nodeA\<close> times out first and the store on \<open>nodeB\<close>
  succeeds after it: \<open>set_digest\<close> returns the pair \<open>[false, null]\<close> of the store that
  settled first, although a store succeeded.
\<close>

theorem Server_set_digest_first_settled:
  "set_digest compare (Suc 0) 0 3 net_silent stores_late dkey6 (9::nat) proto4 = Some (Pending, storage proto4)
   \<and> map stores_late [nodeA, nodeB] = [(5000, Fulfilled (False, None)), (5001, Fulfilled (True, Some 1))]
   \<and> set_digest compare (Suc 0) 0 3 net_alive stores_late dkey6 (9::nat) proto5
        = Some (Resolved (StoreResult (False, None)), \<lparr>entries = [(dkey6, (0, 9))], ttl = 20000\<rparr>)"
proof -
  have "map stores_late [nodeA, nodeB] = [(5000, Fulfilled (False, None)), (5001, Fulfilled (True, Some 1))]"
    by (simp add: stores_late_def nodeA_def nodeB_def)
  then show ?thesis
    using set_digest_silent [of stores_late 9] set_digest_late by (simp only: simp_thms)
qed

end
